theory Spec2Isabelle
  imports Complex_Main "HOL-Library.Word"
begin

section \<open>Runtime values\<close>

text \<open>
  An ECMAScript string is a finite sequence of 16-bit code units; a Node \<open>Buffer\<close> is a
  finite sequence of bytes. Numbers that the challenge lifecycle handles (timestamps in
  milliseconds, attempt counts) are integer-valued and far below \<open>2 ^ 53\<close>; they are
  modelled as \<open>int\<close>, with arithmetic on them exact. The numbers of \<open>randomInt\<close> are
  integer-valued as well, but its arguments are arbitrary: there every operation rounds to
  the nearest double (see \<open>double\<close> below).
\<close>

type_synonym jsstring = "16 word list"
type_synonym buffer = "8 word list"

text \<open>An ASCII literal of the source text as a string value.\<close>

definition str :: "string \<Rightarrow> jsstring" where
  "str s = map (\<lambda>c. of_nat (of_char c)) s"

text \<open>
  Thrown values. \<open>Error m\<close> is \<open>new Error(m)\<close>; \<open>RangeError\<close> is what
  \<open>crypto.timingSafeEqual\<close> throws on buffers of different byte length and what
  \<open>crypto.randomBytes\<close> throws on a size that is no valid length. \<open>NoEntropy\<close> is
  not an exception of the program: it is the result of a run whose finite tape of random
  bytes is used up before the run ends (see \<open>randomBytes\<close>).
\<close>

datatype js_error = Error jsstring | RangeError | NoEntropy

definition andThen :: "js_error + 'a \<Rightarrow> ('a \<Rightarrow> js_error + 'b) \<Rightarrow> js_error + 'b" where
  "andThen r f = (case r of Inl e \<Rightarrow> Inl e | Inr x \<Rightarrow> f x)"

subsection \<open>UTF-16 and UTF-8 (\<open>Buffer.from(s, 'utf-8')\<close>, \<open>buf.toString('utf-8')\<close>)\<close>

definition isHigh :: "nat \<Rightarrow> bool" where
  "isHigh u = (0xD800 \<le> u \<and> u < 0xDC00)"

definition isLow :: "nat \<Rightarrow> bool" where
  "isLow u = (0xDC00 \<le> u \<and> u < 0xE000)"

text \<open>
  The code points of a string: a high surrogate followed by a low surrogate is one
  supplementary code point, and a surrogate that stands alone is read as U+FFFD, which is
  what the UTF-8 encoder of \<open>Buffer.from\<close> and of \<open>Hmac.update\<close> writes for it.
\<close>

fun codePoints :: "nat list \<Rightarrow> nat list" where
  "codePoints [] = []"
| "codePoints [u] = [if isHigh u \<or> isLow u then 0xFFFD else u]"
| "codePoints (u # v # us) =
     (if isHigh u \<and> isLow v
      then (0x10000 + (u - 0xD800) * 0x400 + (v - 0xDC00)) # codePoints us
      else (if isHigh u \<or> isLow u then 0xFFFD else u) # codePoints (v # us))"

definition utf8Bytes :: "nat \<Rightarrow> nat list" where
  "utf8Bytes c =
     (if c < 0x80 then [c]
      else if c < 0x800 then [0xC0 + c div 0x40, 0x80 + c mod 0x40]
      else if c < 0x10000
        then [0xE0 + c div 0x1000, 0x80 + (c div 0x40) mod 0x40, 0x80 + c mod 0x40]
      else [0xF0 + c div 0x40000, 0x80 + (c div 0x1000) mod 0x40,
            0x80 + (c div 0x40) mod 0x40, 0x80 + c mod 0x40])"

definition utf8Encode :: "nat list \<Rightarrow> nat list" where
  "utf8Encode us = concat (map utf8Bytes (codePoints us))"

definition Buffer_from :: "jsstring \<Rightarrow> buffer" where
  "Buffer_from s = map of_nat (utf8Encode (map unat s))"

text \<open>
  The UTF-8 decoder of \<open>buf.toString('utf-8')\<close>, as the state machine of the Encoding
  standard that V8 implements: \<open>cp\<close> is the code point read so far, \<open>need\<close> the number of
  continuation bytes still expected, \<open>lo\<close> and \<open>hi\<close> the bounds of the next continuation
  byte. Every ill-formed subsequence becomes one U+FFFD, and the byte that ended it is read
  again.
\<close>

function utf8Decode :: "nat \<Rightarrow> nat \<Rightarrow> nat \<Rightarrow> nat \<Rightarrow> nat list \<Rightarrow> nat list" where
  "utf8Decode cp need lo hi [] = (if need = 0 then [] else [0xFFFD])"
| "utf8Decode cp need lo hi (b # bs) =
     (if need = 0 then
        (if b < 0x80 then b # utf8Decode 0 0 0x80 0xBF bs
         else if 0xC2 \<le> b \<and> b \<le> 0xDF then utf8Decode (b mod 0x20) 1 0x80 0xBF bs
         else if 0xE0 \<le> b \<and> b \<le> 0xEF
           then utf8Decode (b mod 0x10) 2 (if b = 0xE0 then 0xA0 else 0x80)
                  (if b = 0xED then 0x9F else 0xBF) bs
         else if 0xF0 \<le> b \<and> b \<le> 0xF4
           then utf8Decode (b mod 8) 3 (if b = 0xF0 then 0x90 else 0x80)
                  (if b = 0xF4 then 0x8F else 0xBF) bs
         else 0xFFFD # utf8Decode 0 0 0x80 0xBF bs)
      else if b < lo \<or> hi < b then 0xFFFD # utf8Decode 0 0 0x80 0xBF (b # bs)
      else if need = 1 then (cp * 0x40 + b mod 0x40) # utf8Decode 0 0 0x80 0xBF bs
      else utf8Decode (cp * 0x40 + b mod 0x40) (need - 1) 0x80 0xBF bs)"
  by pat_completeness auto
termination
  by (relation "measure (\<lambda>(cp, need, lo, hi, bs). 2 * length bs + (if need = 0 then 0 else 1))")
    auto

definition utf16Units :: "nat \<Rightarrow> nat list" where
  "utf16Units c =
     (if c < 0x10000 then [c]
      else [0xD800 + (c - 0x10000) div 0x400, 0xDC00 + (c - 0x10000) mod 0x400])"

definition toString_utf8 :: "buffer \<Rightarrow> jsstring" where
  "toString_utf8 buf =
     map of_nat (concat (map utf16Units (utf8Decode 0 0 0x80 0xBF (map unat buf))))"

text \<open>A string is well formed when it has no surrogate outside a high-low pair.\<close>

fun wellFormed :: "nat list \<Rightarrow> bool" where
  "wellFormed [] = True"
| "wellFormed [u] = (\<not> isHigh u \<and> \<not> isLow u)"
| "wellFormed (u # v # us) =
     (if isHigh u then isLow v \<and> wellFormed us else \<not> isLow u \<and> wellFormed (v # us))"

definition isWellFormed :: "jsstring \<Rightarrow> bool" where
  "isWellFormed s = wellFormed (map unat s)"

text \<open>The Unicode scalar values: the code points that are not surrogates.\<close>

definition scalar :: "nat \<Rightarrow> bool" where
  "scalar c = (c < 0x110000 \<and> \<not> isHigh c \<and> \<not> isLow c)"

subsection \<open>Hexadecimal and base64 (\<open>buf.toString\<close>, \<open>Buffer.from\<close> with an encoding)\<close>

definition hexDigit :: "nat \<Rightarrow> 16 word" where
  "hexDigit n = of_nat (if n < 10 then 48 + n else 87 + n)"

definition toString_hex :: "buffer \<Rightarrow> jsstring" where
  "toString_hex buf = concat (map (\<lambda>b. [hexDigit (unat b div 16), hexDigit (unat b mod 16)]) buf)"

text \<open>
  Node converts every code unit of the string to a byte before it looks it up
  (\<open>static_cast<uint8_t>\<close>): only the low byte of a character counts, so that U+0134 is
  read as the digit \<open>4\<close>.
\<close>

definition unhex :: "16 word \<Rightarrow> nat option" where
  "unhex c =
     (let n = unat c mod 256 in
      if 48 \<le> n \<and> n \<le> 57 then Some (n - 48)
      else if 97 \<le> n \<and> n \<le> 102 then Some (n - 87)
      else if 65 \<le> n \<and> n \<le> 70 then Some (n - 55)
      else None)"

text \<open>
  \<open>Buffer.from(s, 'hex')\<close> reads two characters per byte and stops, without an error, at
  the first pair that is not two hexadecimal digits in that reading; a single trailing
  character is dropped.
\<close>

fun hexDecode :: "jsstring \<Rightarrow> nat list" where
  "hexDecode (a # b # cs) =
     (case unhex a of
        None \<Rightarrow> []
      | Some x \<Rightarrow> (case unhex b of None \<Rightarrow> [] | Some y \<Rightarrow> (x * 16 + y) # hexDecode cs))"
| "hexDecode cs = []"

definition Buffer_from_hex :: "jsstring \<Rightarrow> buffer" where
  "Buffer_from_hex s = map of_nat (hexDecode s)"

definition base64Char :: "nat \<Rightarrow> 16 word" where
  "base64Char n =
     of_nat (if n < 26 then 65 + n else if n < 52 then 71 + n else if n < 62 then n - 4
             else if n = 62 then 43 else 47)"

fun base64Encode :: "nat list \<Rightarrow> jsstring" where
  "base64Encode (a # b # c # bs) =
     [base64Char (a div 4), base64Char ((a mod 4) * 16 + b div 16),
      base64Char ((b mod 16) * 4 + c div 64), base64Char (c mod 64)] @ base64Encode bs"
| "base64Encode [a, b] =
     [base64Char (a div 4), base64Char ((a mod 4) * 16 + b div 16),
      base64Char ((b mod 16) * 4), 61]"
| "base64Encode [a] = [base64Char (a div 4), base64Char ((a mod 4) * 16), 61, 61]"
| "base64Encode [] = []"

definition toString_base64 :: "buffer \<Rightarrow> jsstring" where
  "toString_base64 buf = base64Encode (map unat buf)"

text \<open>The base64 table is looked up with the low byte of the character as well.\<close>

definition unbase64 :: "16 word \<Rightarrow> nat option" where
  "unbase64 c =
     (let n = unat c mod 256 in
      if 65 \<le> n \<and> n \<le> 90 then Some (n - 65)
      else if 97 \<le> n \<and> n \<le> 122 then Some (n - 71)
      else if 48 \<le> n \<and> n \<le> 57 then Some (n + 4)
      else if n = 43 \<or> n = 45 then Some 62
      else if n = 47 \<or> n = 95 then Some 63
      else None)"

text \<open>
  \<open>Buffer.from(s, 'base64')\<close> is lenient as well: it stops at the first character whose
  low byte is \<open>=\<close>, skips every other character outside the alphabet (the URL-safe \<open>-\<close>
  and \<open>_\<close> are accepted), and writes a byte for every eight bits it has collected.
\<close>

fun sextets :: "jsstring \<Rightarrow> nat list" where
  "sextets [] = []"
| "sextets (c # cs) =
     (if unat c mod 256 = 61 then []
      else (case unbase64 c of None \<Rightarrow> sextets cs | Some v \<Rightarrow> v # sextets cs))"

fun sextetBytes :: "nat list \<Rightarrow> nat list" where
  "sextetBytes (a # b # c # d # ss) =
     [a * 4 + b div 16, (b mod 16) * 16 + c div 4, (c mod 4) * 64 + d] @ sextetBytes ss"
| "sextetBytes [a, b, c] = [a * 4 + b div 16, (b mod 16) * 16 + c div 4]"
| "sextetBytes [a, b] = [a * 4 + b div 16]"
| "sextetBytes ss = []"

definition Buffer_from_base64 :: "jsstring \<Rightarrow> buffer" where
  "Buffer_from_base64 s = map of_nat (sextetBytes (sextets s))"

section \<open>Encoding utilities (\<open>src/core/encoding.ts\<close>)\<close>

definition encodeBase64 :: "jsstring \<Rightarrow> jsstring" where
  "encodeBase64 v = toString_base64 (Buffer_from v)"

definition decodeBase64 :: "jsstring \<Rightarrow> jsstring" where
  "decodeBase64 v = toString_utf8 (Buffer_from_base64 v)"

definition encodeHex :: "jsstring \<Rightarrow> jsstring" where
  "encodeHex v = toString_hex (Buffer_from v)"

definition decodeHex :: "jsstring \<Rightarrow> jsstring" where
  "decodeHex v = toString_utf8 (Buffer_from_hex v)"

text \<open>
  \<open>value.replace(/[a-zA-Z]/g, ...)\<close> rewrites the code units that are ASCII letters and
  leaves every other code unit as it is.
\<close>

definition rot13Char :: "16 word \<Rightarrow> 16 word" where
  "rot13Char c =
     (let n = unat c in
      if (65 \<le> n \<and> n \<le> 90) \<or> (97 \<le> n \<and> n \<le> 122)
      then (let base = (if n \<le> 90 then 65 else 97) in of_nat ((n - base + 13) mod 26 + base))
      else c)"

definition encodeRot13 :: "jsstring \<Rightarrow> jsstring" where
  "encodeRot13 v = map rot13Char v"

definition decodeRot13 :: "jsstring \<Rightarrow> jsstring" where
  "decodeRot13 v = encodeRot13 v"

text \<open>
  The encoding is a string at run time; a value outside the four names reaches the
  \<open>default\<close> branch of the \<open>switch\<close>, which throws.
\<close>

definition encode :: "jsstring \<Rightarrow> jsstring \<Rightarrow> js_error + jsstring" where
  "encode v encoding =
     (if encoding = str ''plain'' then Inr v
      else if encoding = str ''base64'' then Inr (encodeBase64 v)
      else if encoding = str ''hex'' then Inr (encodeHex v)
      else if encoding = str ''rot13'' then Inr (encodeRot13 v)
      else Inl (Error (str ''Unknown encoding type: '' @ encoding)))"

definition decode :: "jsstring \<Rightarrow> jsstring \<Rightarrow> js_error + jsstring" where
  "decode v encoding =
     (if encoding = str ''plain'' then Inr v
      else if encoding = str ''base64'' then Inr (decodeBase64 v)
      else if encoding = str ''hex'' then Inr (decodeHex v)
      else if encoding = str ''rot13'' then Inr (decodeRot13 v)
      else Inl (Error (str ''Unknown encoding type: '' @ encoding)))"

definition encodeChain :: "jsstring \<Rightarrow> jsstring list \<Rightarrow> js_error + jsstring" where
  "encodeChain v encodings =
     foldl (\<lambda>acc encoding. andThen acc (\<lambda>a. encode a encoding)) (Inr v) encodings"

definition decodeChain :: "jsstring \<Rightarrow> jsstring list \<Rightarrow> js_error + jsstring" where
  "decodeChain v encodings =
     foldl (\<lambda>acc encoding. andThen acc (\<lambda>a. decode a encoding)) (Inr v) (rev encodings)"

section \<open>Cryptographic utilities (\<open>src/utils/crypto.ts\<close>)\<close>

text \<open>
  \<open>crypto.randomBytes(n)\<close> takes the next \<open>n\<close> bytes of a tape of random bytes, which is
  threaded through every function that draws randomness. The tape is finite: a run that
  asks for more bytes than are left ends in \<open>NoEntropy\<close>.
\<close>

definition randomBytes :: "nat \<Rightarrow> buffer \<Rightarrow> js_error + buffer \<times> buffer" where
  "randomBytes n tape = (if length tape < n then Inl NoEntropy else Inr (take n tape, drop n tape))"

definition generateId :: "nat \<Rightarrow> buffer \<Rightarrow> js_error + jsstring \<times> buffer" where
  "generateId len tape =
     andThen (randomBytes len tape) (\<lambda>(bytes, tape'). Inr (toString_hex bytes, tape'))"

text \<open>
  HMAC-SHA256 belongs to Node's \<open>crypto\<close> module, not to the repository: it is a parameter
  \<open>H key message\<close> of every function that signs. \<open>createHmac('sha256', secret)\<close> and
  \<open>update(data)\<close> read their string arguments as UTF-8.
\<close>

type_synonym hmac = "buffer \<Rightarrow> buffer \<Rightarrow> buffer"

definition signChallenge :: "hmac \<Rightarrow> jsstring \<Rightarrow> jsstring \<Rightarrow> jsstring" where
  "signChallenge H data secret = toString_hex (H (Buffer_from secret) (Buffer_from data))"

definition timingSafeEqual :: "buffer \<Rightarrow> buffer \<Rightarrow> js_error + bool" where
  "timingSafeEqual a b = (if length a \<noteq> length b then Inl RangeError else Inr (a = b))"

text \<open>The \<open>try\<close> block of \<open>safeCompare\<close> turns every exception into \<open>false\<close>.\<close>

definition safeCompare :: "jsstring \<Rightarrow> jsstring \<Rightarrow> bool" where
  "safeCompare a b =
     (if length a \<noteq> length b then False
      else (case timingSafeEqual (Buffer_from a) (Buffer_from b) of
              Inl e \<Rightarrow> False
            | Inr r \<Rightarrow> r))"

text \<open>
  The arithmetic of \<open>randomInt\<close> is that of IEEE 754 doubles: the result of an operation
  is its exact result rounded to the nearest double, a tie going to the double whose
  significand is even. A finite double is \<open>m * 2 ^ k\<close> for integers \<open>m\<close> and \<open>k\<close> with
  \<open>|m| \<le> 2 ^ 53\<close>. The values of \<open>randomInt\<close> are integers but for the quotient
  \<open>256 ** bytesNeeded / range\<close>, of which the source takes the floor. Overflow to
  \<open>Infinity\<close>, which starts at \<open>2 ^ 1024\<close>, is not modelled.
\<close>

text \<open>The number of binary digits of \<open>n\<close>.\<close>

function bitLength :: "nat \<Rightarrow> nat" where
  "bitLength n = (if n = 0 then 0 else Suc (bitLength (n div 2)))"
  by pat_completeness auto
termination
  by (relation "measure (\<lambda>n. n)") auto

declare bitLength.simps [simp del]

text \<open>\<open>a / b\<close> for \<open>b > 0\<close>, rounded to the nearest integer, a tie going to the even one.\<close>

definition roundHalfEven :: "int \<Rightarrow> int \<Rightarrow> int" where
  "roundHalfEven a b =
     (let q = a div b; r = a mod b
      in if 2 * r < b then q else if b < 2 * r then q + 1 else if even q then q else q + 1)"

text \<open>For \<open>a > 0\<close> and \<open>b > 0\<close>, the \<open>e\<close> with \<open>2 ^ e \<le> a / b < 2 ^ (e + 1)\<close>.\<close>

definition binaryExponent :: "int \<Rightarrow> int \<Rightarrow> int" where
  "binaryExponent a b =
     (let d = int (bitLength (nat a)) - int (bitLength (nat b))
      in if (if 0 \<le> d then b * 2 ^ nat d \<le> a else b \<le> a * 2 ^ nat (- d)) then d else d - 1)"

text \<open>
  The double nearest to \<open>a / b\<close>, for \<open>b \<noteq> 0\<close>, as the pair \<open>(m, k)\<close> of the double
  \<open>m * 2 ^ k\<close>: the quotient is scaled to 53 binary digits and rounded.
\<close>

definition nearestDouble :: "int \<Rightarrow> int \<Rightarrow> int \<times> int" where
  "nearestDouble a b =
     (if a = 0 then (0, 0)
      else (let k = binaryExponent \<bar>a\<bar> \<bar>b\<bar> - 52;
                m = (if 0 \<le> k then roundHalfEven \<bar>a\<bar> (\<bar>b\<bar> * 2 ^ nat k)
                     else roundHalfEven (\<bar>a\<bar> * 2 ^ nat (- k)) \<bar>b\<bar>)
            in (sgn a * sgn b * m, k)))"

text \<open>\<open>Math.floor\<close> of the double \<open>m * 2 ^ k\<close>.\<close>

definition mathFloor :: "int \<times> int \<Rightarrow> int" where
  "mathFloor d = (case d of (m, k) \<Rightarrow> if 0 \<le> k then m * 2 ^ nat k else m div 2 ^ nat (- k))"

text \<open>The double nearest to an integer, which is an integer.\<close>

definition double :: "int \<Rightarrow> int" where
  "double n = mathFloor (nearestDouble n 1)"

text \<open>
  \<open>Math.ceil(Math.log2(range) / 8)\<close> for \<open>range \<ge> 1\<close>: the least \<open>b\<close> with
  \<open>range \<le> 256 ^ b\<close>, computed without logarithms. \<open>Math.log2\<close> is an approximation that
  the implementation chooses; the ceiling is taken here to be that of the exact logarithm.
\<close>

function ceilLog256 :: "nat \<Rightarrow> nat" where
  "ceilLog256 n = (if n \<le> 1 then 0 else Suc (ceilLog256 ((n + 255) div 256)))"
  by pat_completeness auto
termination
  by (relation "measure (\<lambda>n. n)") auto

declare ceilLog256.simps [simp del]

text \<open>
  \<open>Math.ceil(Math.log2(range) / 8) || 1\<close>. For a negative range the logarithm is \<open>NaN\<close>,
  which \<open>||\<close> replaces by 1. A range of 0 gives \<open>-Infinity\<close>, which \<open>||\<close> keeps and
  \<open>randomBytes\<close> refuses: \<open>None\<close> here.
\<close>

definition bytesNeeded :: "int \<Rightarrow> nat option" where
  "bytesNeeded range' =
     (if range' = 0 then None
      else if range' < 0 then Some 1
      else Some (if ceilLog256 (nat range') = 0 then 1 else ceilLog256 (nat range')))"

text \<open>
  \<open>bytes.reduce((acc, byte, i) => acc + byte * (256 ** i), 0)\<close>: the product and the sum of
  every step are rounded.
\<close>

definition reduceBytes :: "buffer \<Rightarrow> int" where
  "reduceBytes bytes =
     foldl (\<lambda>acc (byte, i). double (acc + double (uint byte * 256 ^ i))) 0
       (zip bytes [0..<length bytes])"

text \<open>
  The integer whose digits in base 256 are the bytes, least significant byte first: what
  \<open>reduceBytes\<close> would be without rounding.
\<close>

fun littleEndian :: "buffer \<Rightarrow> int" where
  "littleEndian [] = 0"
| "littleEndian (b # bs) = uint b + 256 * littleEndian bs"

text \<open>The remainder operator \<open>%\<close> of JavaScript truncates: the result has the sign of the dividend.\<close>

definition jsRem :: "int \<Rightarrow> int \<Rightarrow> int" where
  "jsRem a b = sgn a * (\<bar>a\<bar> mod \<bar>b\<bar>)"

text \<open>
  The \<open>do ... while (randomValue > maxValid)\<close> loop of \<open>randomInt\<close>. Every round takes
  \<open>bytesNeeded\<close> bytes from the tape. \<open>randomInt\<close> never runs it with \<open>bytesNeeded = 0\<close>;
  there a rejected round would repeat for ever without reading the tape, which is
  \<open>NoEntropy\<close> too.
\<close>

function sample :: "nat \<Rightarrow> int \<Rightarrow> buffer \<Rightarrow> js_error + int \<times> buffer" where
  "sample n maxValid tape =
     (if length tape < n then Inl NoEntropy
      else (let randomValue = reduceBytes (take n tape) in
            if randomValue > maxValid
            then (if n = 0 then Inl NoEntropy else sample n maxValid (drop n tape))
            else Inr (randomValue, drop n tape)))"
  by pat_completeness auto
termination
  by (relation "measure (\<lambda>(n, maxValid, tape). length tape)") auto

declare sample.simps [simp del]

text \<open>
  \<open>randomInt\<close>, for arguments that are integers (and doubles). The remainder \<open>%\<close> of two
  doubles is exact.
\<close>

definition randomInt :: "int \<Rightarrow> int \<Rightarrow> buffer \<Rightarrow> js_error + int \<times> buffer" where
  "randomInt min' max' tape =
     (let range' = double (double (max' - min') + 1) in
      case bytesNeeded range' of
        None \<Rightarrow> Inl RangeError
      | Some n \<Rightarrow>
          (let maxValid =
                 double (double (mathFloor (nearestDouble (256 ^ n) range') * range') - 1) in
           andThen (sample n maxValid tape)
             (\<lambda>(randomValue, tape'). Inr (double (min' + jsRem randomValue range'), tape'))))"

text \<open>
  \<open>arr[randomInt(0, arr.length - 1)]\<close>. The index is inside the array: a result of
  \<open>randomInt(min, max)\<close> lies in \<open>[min, max]\<close> for a range of at most \<open>2 ^ 48\<close>, as is shown
  below.
\<close>

definition randomElement :: "'a list \<Rightarrow> buffer \<Rightarrow> js_error + 'a \<times> buffer" where
  "randomElement arr tape =
     (if length arr = 0 then Inl (Error (str ''Cannot select from empty array''))
      else andThen (randomInt 0 (int (length arr) - 1) tape)
             (\<lambda>(i, tape'). Inr (arr ! nat i, tape')))"

section \<open>Values and their JSON text (\<open>JSON.stringify\<close>)\<close>

text \<open>
  The payload of a challenge is a plain data value: the generator builds it from strings,
  integers, arrays and object literals, and the transport parses it from JSON. Numbers are
  the integer-valued ones and the four values that \<open>JSON.stringify\<close> does not write as
  they are; a finite number with a fraction is outside the model. The members of an object
  are listed in the order in which \<open>JSON.stringify\<close> visits them.
\<close>

datatype jsnumber = Integer int | NegativeZero | NotANumber | PosInfinity | NegInfinity

datatype jsvalue =
    JUndefined
  | JNull
  | JBoolean bool
  | JNumber jsnumber
  | JString jsstring
  | JArray "jsvalue list"
  | JObject "(jsstring \<times> jsvalue) list"

function decimal :: "nat \<Rightarrow> jsstring" where
  "decimal n = (if n < 10 then [of_nat (48 + n)] else decimal (n div 10) @ [of_nat (48 + n mod 10)])"
  by pat_completeness auto
termination
  by (relation "measure (\<lambda>n. n)") auto

declare decimal.simps [simp del]

text \<open>\<open>String(n)\<close> and \<open>`${n}`\<close> for the numbers of the model (exact below \<open>10 ^ 21\<close>).\<close>

definition numberToString :: "jsnumber \<Rightarrow> jsstring" where
  "numberToString n =
     (case n of
        Integer i \<Rightarrow> (if i < 0 then str ''-'' @ decimal (nat (- i)) else decimal (nat i))
      | NegativeZero \<Rightarrow> str ''0''
      | NotANumber \<Rightarrow> str ''NaN''
      | PosInfinity \<Rightarrow> str ''Infinity''
      | NegInfinity \<Rightarrow> str ''-Infinity'')"

definition unicodeEscape :: "16 word \<Rightarrow> jsstring" where
  "unicodeEscape u =
     [92, 117, hexDigit (unat u div 4096), hexDigit (unat u div 256 mod 16),
      hexDigit (unat u div 16 mod 16), hexDigit (unat u mod 16)]"

text \<open>
  \<open>QuoteJSONString\<close>: the two-character escapes of backspace, tab, line feed, form feed,
  carriage return, the double quote and the backslash; \<open>\u\<close> escapes for the other control
  characters and for a surrogate that stands alone; every other code unit as it is.
\<close>

definition singleCharacterEscape :: "16 word \<Rightarrow> 16 word option" where
  "singleCharacterEscape u =
     (if u = 8 then Some 98 else if u = 9 then Some 116 else if u = 10 then Some 110
      else if u = 12 then Some 102 else if u = 13 then Some 114
      else if u = 34 then Some 34 else if u = 92 then Some 92 else None)"

fun quoteUnits :: "jsstring \<Rightarrow> jsstring" where
  "quoteUnits [] = []"
| "quoteUnits (u # us) =
     (case singleCharacterEscape u of
        Some c \<Rightarrow> [92, c] @ quoteUnits us
      | None \<Rightarrow>
          if u < 32 then unicodeEscape u @ quoteUnits us
          else if isHigh (unat u) then
            (case us of
               [] \<Rightarrow> unicodeEscape u
             | v # vs \<Rightarrow>
                 (if isLow (unat v) then u # v # quoteUnits vs
                  else unicodeEscape u @ quoteUnits us))
          else if isLow (unat u) then unicodeEscape u @ quoteUnits us
          else u # quoteUnits us)"

definition quoteJSONString :: "jsstring \<Rightarrow> jsstring" where
  "quoteJSONString s = [34] @ quoteUnits s @ [34]"

fun joinComma :: "jsstring list \<Rightarrow> jsstring" where
  "joinComma [] = []"
| "joinComma [x] = x"
| "joinComma (x # y # ys) = x @ [44] @ joinComma (y # ys)"

text \<open>
  \<open>SerializeJSONProperty\<close>: \<open>None\<close> is the result \<open>undefined\<close>. A member whose value is
  \<open>undefined\<close> is left out of an object, and an \<open>undefined\<close> element of an array is written
  \<open>null\<close>; a number that is not finite is written \<open>null\<close>.
\<close>

fun serializeJSONProperty :: "jsvalue \<Rightarrow> jsstring option"
  and partialOfObject :: "(jsstring \<times> jsvalue) list \<Rightarrow> jsstring list"
  and partialOfArray :: "jsvalue list \<Rightarrow> jsstring list"
where
  "serializeJSONProperty JUndefined = None"
| "serializeJSONProperty JNull = Some (str ''null'')"
| "serializeJSONProperty (JBoolean b) = Some (if b then str ''true'' else str ''false'')"
| "serializeJSONProperty (JNumber n) =
     Some (case n of
             Integer i \<Rightarrow> numberToString n
           | NegativeZero \<Rightarrow> numberToString n
           | NotANumber \<Rightarrow> str ''null''
           | PosInfinity \<Rightarrow> str ''null''
           | NegInfinity \<Rightarrow> str ''null'')"
| "serializeJSONProperty (JString s) = Some (quoteJSONString s)"
| "serializeJSONProperty (JArray xs) = Some ([91] @ joinComma (partialOfArray xs) @ [93])"
| "serializeJSONProperty (JObject kvs) = Some ([123] @ joinComma (partialOfObject kvs) @ [125])"
| "partialOfObject [] = []"
| "partialOfObject ((k, v) # kvs) =
     (case serializeJSONProperty v of
        None \<Rightarrow> partialOfObject kvs
      | Some t \<Rightarrow> (quoteJSONString k @ [58] @ t) # partialOfObject kvs)"
| "partialOfArray [] = []"
| "partialOfArray (x # xs) =
     (case serializeJSONProperty x of None \<Rightarrow> str ''null'' | Some t \<Rightarrow> t) # partialOfArray xs"

text \<open>\<open>JSON.stringify\<close> of an object literal, which is always a string.\<close>

definition JSON_stringify :: "(jsstring \<times> jsvalue) list \<Rightarrow> jsstring" where
  "JSON_stringify kvs = [123] @ joinComma (partialOfObject kvs) @ [125]"

section \<open>Rate limiter (\<open>src/utils/rate-limiter.ts\<close>)\<close>

text \<open>
  Field names are global in a theory, so where two object types of the source share a
  field name one of them is renamed: \<open>attemptResetAt\<close> is the \<open>resetAt\<close> of the object
  that \<open>recordAttempt\<close> returns, and \<open>limits\<close> is the \<open>config\<close> of the rate limiter. The
  cleanup timer is not part of the state; \<open>cleanup\<close> is what it runs.
\<close>

record RateLimitConfig =
  maxAttempts :: int
  windowMs :: int

record RateLimitEntry =
  count :: int
  resetAt :: int

record RateLimiter =
  entries :: "jsstring \<rightharpoonup> RateLimitEntry"
  limits :: RateLimitConfig

record AttemptResult =
  allowed :: bool
  remaining :: int
  attemptResetAt :: int

definition createRateLimiter :: "RateLimitConfig \<Rightarrow> RateLimiter" where
  "createRateLimiter cfg = \<lparr>entries = Map.empty, limits = cfg\<rparr>"

text \<open>
  Every function that reads \<open>Date.now()\<close> takes the reading as its argument \<open>now\<close>.
  \<open>isRateLimited\<close> deletes the entry of an elapsed window, so it returns the limiter too.
\<close>

definition isRateLimited :: "int \<Rightarrow> jsstring \<Rightarrow> RateLimiter \<Rightarrow> bool \<times> RateLimiter" where
  "isRateLimited now key rl =
     (case entries rl key of
        None \<Rightarrow> (False, rl)
      | Some entry \<Rightarrow>
          (if now > resetAt entry then (False, rl\<lparr>entries := (entries rl)(key := None)\<rparr>)
           else (count entry \<ge> maxAttempts (limits rl), rl)))"

definition recordAttempt :: "int \<Rightarrow> jsstring \<Rightarrow> RateLimiter \<Rightarrow> AttemptResult \<times> RateLimiter" where
  "recordAttempt now key rl =
     (let fresh = \<lparr>count = 0, resetAt = now + windowMs (limits rl)\<rparr>;
          (entry, rl1) =
            (case entries rl key of
               None \<Rightarrow> (fresh, rl\<lparr>entries := (entries rl)(key \<mapsto> fresh)\<rparr>)
             | Some e \<Rightarrow>
                 (if now > resetAt e then (fresh, rl\<lparr>entries := (entries rl)(key \<mapsto> fresh)\<rparr>)
                  else (e, rl)))
      in if count entry \<ge> maxAttempts (limits rl)
         then (\<lparr>allowed = False, remaining = 0, attemptResetAt = resetAt entry\<rparr>, rl1)
         else (let entry' = entry\<lparr>count := count entry + 1\<rparr>
               in (\<lparr>allowed = True, remaining = maxAttempts (limits rl) - count entry',
                    attemptResetAt = resetAt entry'\<rparr>,
                   rl1\<lparr>entries := (entries rl1)(key \<mapsto> entry')\<rparr>)))"

definition getRemainingAttempts :: "int \<Rightarrow> jsstring \<Rightarrow> RateLimiter \<Rightarrow> int" where
  "getRemainingAttempts now key rl =
     (case entries rl key of
        None \<Rightarrow> maxAttempts (limits rl)
      | Some entry \<Rightarrow>
          (if now > resetAt entry then maxAttempts (limits rl)
           else max 0 (maxAttempts (limits rl) - count entry)))"

definition reset :: "jsstring \<Rightarrow> RateLimiter \<Rightarrow> RateLimiter" where
  "reset key rl = rl\<lparr>entries := (entries rl)(key := None)\<rparr>"

definition clear :: "RateLimiter \<Rightarrow> RateLimiter" where
  "clear rl = rl\<lparr>entries := Map.empty\<rparr>"

definition cleanup :: "int \<Rightarrow> RateLimiter \<Rightarrow> RateLimiter" where
  "cleanup now rl =
     rl\<lparr>entries := (\<lambda>key. case entries rl key of
                              None \<Rightarrow> None
                            | Some entry \<Rightarrow> if now > resetAt entry then None else Some entry)\<rparr>"

definition destroyLimiter :: "RateLimiter \<Rightarrow> RateLimiter" where
  "destroyLimiter rl = clear rl"

section \<open>Challenges (\<open>src/core/types.ts\<close>)\<close>

text \<open>
  \<open>ident\<close> and \<open>kind\<close> are the fields \<open>id\<close> and \<open>type\<close> of a challenge,
  \<open>storedExpiresAt\<close> is the \<open>expiresAt\<close> of a store entry, and \<open>defaultDifficulty\<close> is the
  \<open>difficulty\<close> of the configuration. The challenge type, the difficulty and the encoding
  names are strings at run time. The configuration is the one the constructors hold, after
  the defaults are filled in.
\<close>

record Challenge =
  ident :: jsstring
  kind :: jsstring
  difficulty :: jsstring
  payload :: jsvalue
  expiresAt :: int
  signature :: jsstring

record ChallengeSolution =
  challengeId :: jsstring
  solution :: jsstring

datatype VerificationErrorCode =
  EXPIRED | INVALID_SIGNATURE | INVALID_SOLUTION | RATE_LIMITED | CHALLENGE_NOT_FOUND

record VerificationResult =
  valid :: bool
  error :: "jsstring option"
  errorCode :: "VerificationErrorCode option"

record UnCaptchaConfig =
  secret :: jsstring
  defaultDifficulty :: jsstring
  challengeTypes :: "jsstring list"
  expirationMs :: int
  rateLimit :: RateLimitConfig

definition defaultConfig :: "jsstring \<Rightarrow> UnCaptchaConfig" where
  "defaultConfig s =
     \<lparr>secret = s, defaultDifficulty = str ''medium'',
      challengeTypes = [str ''function_execution'', str ''chained_operations'',
                        str ''encoded_instruction''],
      expirationMs = 30000,
      rateLimit = \<lparr>maxAttempts = 10, windowMs = 60000\<rparr>\<rparr>"

section \<open>Challenge verifier (\<open>src/core/verifier.ts\<close>)\<close>

record ChallengeStore =
  expectedAnswer :: jsstring
  storedExpiresAt :: int

record ChallengeVerifier =
  config :: UnCaptchaConfig
  rateLimiter :: RateLimiter
  challengeStore :: "jsstring \<rightharpoonup> ChallengeStore"

definition createVerifier :: "UnCaptchaConfig \<Rightarrow> ChallengeVerifier" where
  "createVerifier cfg =
     \<lparr>config = cfg, rateLimiter = createRateLimiter (rateLimit cfg), challengeStore = Map.empty\<rparr>"

definition storeChallenge :: "jsstring \<Rightarrow> jsstring \<Rightarrow> int \<Rightarrow> ChallengeVerifier \<Rightarrow> ChallengeVerifier" where
  "storeChallenge cid answer expires v =
     v\<lparr>challengeStore :=
         (challengeStore v)(cid \<mapsto> \<lparr>expectedAnswer = answer, storedExpiresAt = expires\<rparr>)\<rparr>"

text \<open>\<open>clientIdentifier || 'anonymous'\<close>: a missing and an empty identifier are both falsy.\<close>

definition clientKeyOf :: "jsstring option \<Rightarrow> jsstring" where
  "clientKeyOf clientIdentifier =
     (case clientIdentifier of
        None \<Rightarrow> str ''anonymous''
      | Some c \<Rightarrow> if c = [] then str ''anonymous'' else c)"

text \<open>\<open>Math.ceil((resetAt - Date.now()) / 1000)\<close> inside the message of a rate-limited call.\<close>

definition rateLimitedMessage :: "int \<Rightarrow> int \<Rightarrow> jsstring" where
  "rateLimitedMessage resetsAt now =
     str ''Rate limited. Try again in '' @
     numberToString (Integer (- ((- (resetsAt - now)) div 1000))) @ str '' seconds.''"

definition failure :: "string \<Rightarrow> VerificationErrorCode \<Rightarrow> VerificationResult" where
  "failure message code = \<lparr>valid = False, error = Some (str message), errorCode = Some code\<rparr>"

text \<open>
  \<open>now i\<close> is the \<open>i\<close>-th reading of \<open>Date.now()\<close> that a call makes, counted from 0: the
  clock may move on between two readings of one call. The first reading is the one inside
  \<open>recordAttempt\<close>; a rate-limited call reads the clock once more for its message, any
  other call reads it for the expiry of the challenge and then for the expiry of the
  stored entry.
\<close>

definition verify ::
  "hmac \<Rightarrow> (nat \<Rightarrow> int) \<Rightarrow> Challenge \<Rightarrow> ChallengeSolution \<Rightarrow> jsstring option \<Rightarrow>
   ChallengeVerifier \<Rightarrow> VerificationResult \<times> ChallengeVerifier" where
  "verify H now challenge sol clientIdentifier v =
     (let clientKey = clientKeyOf clientIdentifier;
          (rateLimitResult, rl) = recordAttempt (now 0) clientKey (rateLimiter v);
          v1 = v\<lparr>rateLimiter := rl\<rparr>
      in if \<not> allowed rateLimitResult then
           (\<lparr>valid = False,
             error = Some (rateLimitedMessage (attemptResetAt rateLimitResult) (now 1)),
             errorCode = Some RATE_LIMITED\<rparr>, v1)
         else if ident challenge \<noteq> challengeId sol then
           (failure ''Challenge ID mismatch'' CHALLENGE_NOT_FOUND, v1)
         else if now 1 > expiresAt challenge then
           (failure ''Challenge has expired'' EXPIRED, v1)
         else
           (case challengeStore v1 (ident challenge) of
              None \<Rightarrow> (failure ''Challenge not found or already used'' CHALLENGE_NOT_FOUND, v1)
            | Some stored \<Rightarrow>
                if now 2 > storedExpiresAt stored then
                  (failure ''Challenge has expired'' EXPIRED,
                   v1\<lparr>challengeStore := (challengeStore v1)(ident challenge := None)\<rparr>)
                else
                  (let signatureData = JSON_stringify
                         [(str ''id'', JString (ident challenge)),
                          (str ''type'', JString (kind challenge)),
                          (str ''payload'', payload challenge),
                          (str ''expiresAt'', JNumber (Integer (expiresAt challenge))),
                          (str ''expectedAnswer'', JString (expectedAnswer stored))];
                       expectedSignature = signChallenge H signatureData (secret (config v1))
                   in if \<not> safeCompare (signature challenge) expectedSignature then
                        (failure ''Invalid challenge signature'' INVALID_SIGNATURE, v1)
                      else if \<not> safeCompare (solution sol) (expectedAnswer stored) then
                        (failure ''Incorrect solution'' INVALID_SOLUTION, v1)
                      else
                        (\<lparr>valid = True, error = None, errorCode = None\<rparr>,
                         v1\<lparr>challengeStore := (challengeStore v1)(ident challenge := None),
                            rateLimiter := reset clientKey (rateLimiter v1)\<rparr>))))"

definition verifyStateless ::
  "hmac \<Rightarrow> (nat \<Rightarrow> int) \<Rightarrow> Challenge \<Rightarrow> ChallengeSolution \<Rightarrow> jsstring option \<Rightarrow>
   ChallengeVerifier \<Rightarrow> VerificationResult \<times> ChallengeVerifier" where
  "verifyStateless H now challenge sol clientIdentifier v =
     (let clientKey = clientKeyOf clientIdentifier;
          (rateLimitResult, rl) = recordAttempt (now 0) clientKey (rateLimiter v);
          v1 = v\<lparr>rateLimiter := rl\<rparr>
      in if \<not> allowed rateLimitResult then
           (\<lparr>valid = False,
             error = Some (rateLimitedMessage (attemptResetAt rateLimitResult) (now 1)),
             errorCode = Some RATE_LIMITED\<rparr>, v1)
         else if ident challenge \<noteq> challengeId sol then
           (failure ''Challenge ID mismatch'' CHALLENGE_NOT_FOUND, v1)
         else if now 1 > expiresAt challenge then
           (failure ''Challenge has expired'' EXPIRED, v1)
         else
           (let signatureData = JSON_stringify
                  [(str ''id'', JString (ident challenge)),
                   (str ''type'', JString (kind challenge)),
                   (str ''payload'', payload challenge),
                   (str ''expiresAt'', JNumber (Integer (expiresAt challenge))),
                   (str ''expectedAnswer'', JString (solution sol))];
                computedSignature = signChallenge H signatureData (secret (config v1))
            in if \<not> safeCompare (signature challenge) computedSignature then
                 (failure ''Incorrect solution'' INVALID_SOLUTION, v1)
               else (\<lparr>valid = True, error = None, errorCode = None\<rparr>, v1)))"

definition cleanupChallenges :: "int \<Rightarrow> ChallengeVerifier \<Rightarrow> ChallengeVerifier" where
  "cleanupChallenges now v =
     v\<lparr>challengeStore :=
         (\<lambda>cid. case challengeStore v cid of
                  None \<Rightarrow> None
                | Some stored \<Rightarrow> if now > storedExpiresAt stored then None else Some stored)\<rparr>"

definition destroy :: "ChallengeVerifier \<Rightarrow> ChallengeVerifier" where
  "destroy v = v\<lparr>rateLimiter := destroyLimiter (rateLimiter v), challengeStore := Map.empty\<rparr>"

text \<open>
  The text that is signed: the local \<open>signatureData\<close> of \<open>generate\<close> and of \<open>verify\<close>, which
  is \<open>JSON.stringify({id, type, payload, expiresAt, expectedAnswer})\<close> in both.
\<close>

definition signatureData :: "Challenge \<Rightarrow> jsstring \<Rightarrow> jsstring" where
  "signatureData challenge answer =
     JSON_stringify
       [(str ''id'', JString (ident challenge)),
        (str ''type'', JString (kind challenge)),
        (str ''payload'', payload challenge),
        (str ''expiresAt'', JNumber (Integer (expiresAt challenge))),
        (str ''expectedAnswer'', JString answer)]"

text \<open>What the member \<open>payload\<close> adds to that text, with the comma that follows it.\<close>

definition payloadMember :: "jsvalue \<Rightarrow> jsstring" where
  "payloadMember p =
     (case serializeJSONProperty p of
        None \<Rightarrow> []
      | Some t \<Rightarrow> quoteJSONString (str ''payload'') @ [58] @ t @ [44])"

section \<open>Challenge generator (\<open>src/core/generator.ts\<close>)\<close>

record Overrides =
  overrideType :: "jsstring option"
  overrideDifficulty :: "jsstring option"

text \<open>
  A payload builder takes the difficulty and returns the payload and the expected answer.
  \<open>getResponseEncoding\<close> and \<open>getInstructionEncoding\<close> have no \<open>default\<close> branch:
  for a difficulty outside the three they return \<open>undefined\<close> (\<open>None\<close>), and \<open>encode\<close>
  called with it throws with the message that \<open>`${encoding}`\<close> gives.
\<close>

type_synonym builder = "jsstring \<Rightarrow> buffer \<Rightarrow> js_error + (jsvalue \<times> jsstring) \<times> buffer"

definition getResponseEncoding :: "jsstring \<Rightarrow> buffer \<Rightarrow> js_error + jsstring option \<times> buffer" where
  "getResponseEncoding d tape =
     (if d = str ''easy'' then Inr (Some (str ''plain''), tape)
      else if d = str ''medium'' then
        andThen (randomElement [str ''plain'', str ''base64''] tape) (\<lambda>(e, tape'). Inr (Some e, tape'))
      else if d = str ''hard'' then
        andThen (randomElement [str ''base64'', str ''hex''] tape) (\<lambda>(e, tape'). Inr (Some e, tape'))
      else Inr (None, tape))"

definition getInstructionEncoding :: "jsstring \<Rightarrow> buffer \<Rightarrow> js_error + jsstring option \<times> buffer" where
  "getInstructionEncoding d tape =
     (if d = str ''easy'' then Inr (Some (str ''base64''), tape)
      else if d = str ''medium'' then
        andThen (randomElement [str ''base64'', str ''rot13''] tape) (\<lambda>(e, tape'). Inr (Some e, tape'))
      else if d = str ''hard'' then
        andThen (randomElement [str ''hex'', str ''rot13''] tape) (\<lambda>(e, tape'). Inr (Some e, tape'))
      else Inr (None, tape))"

definition encodeWith :: "jsstring \<Rightarrow> jsstring option \<Rightarrow> js_error + jsstring" where
  "encodeWith v encoding =
     (case encoding of
        None \<Rightarrow> Inl (Error (str ''Unknown encoding type: undefined''))
      | Some e \<Rightarrow> encode v e)"

definition encodingValue :: "jsstring option \<Rightarrow> jsvalue" where
  "encodingValue encoding = (case encoding of None \<Rightarrow> JUndefined | Some e \<Rightarrow> JString e)"

definition generateCodeTransform :: builder where
  "generateCodeTransform d tape =
     andThen (randomInt 1 20 tape) (\<lambda>(a, tape1).
     andThen (randomInt 1 20 tape1) (\<lambda>(b, tape2).
     let code = str ''const x = '' @ numberToString (Integer a) @ str ''; const y = '' @
                numberToString (Integer b) @ str ''; return x + y;'';
         result = a + b
     in andThen (getResponseEncoding d tape2) (\<lambda>(responseEncoding, tape3).
        andThen (encodeWith (numberToString (Integer result)) responseEncoding) (\<lambda>answer.
        Inr ((JObject [(str ''type'', JString (str ''code_transform'')),
                       (str ''code'', JString code),
                       (str ''transform'', JString (str ''execute'')),
                       (str ''responseEncoding'', encodingValue responseEncoding)],
              answer), tape3)))))"

definition generateEncodedInstruction :: builder where
  "generateEncodedInstruction d tape =
     andThen (randomInt 10 100 tape) (\<lambda>(a, tape1).
     andThen (randomInt 10 100 tape1) (\<lambda>(b, tape2).
     andThen (randomElement [str ''+'', str ''-'', str ''*''] tape2) (\<lambda>(op, tape3).
     let result = (if op = str ''+'' then a + b
                   else if op = str ''-'' then a - b
                   else if op = str ''*'' then a * b
                   else a + b);
         instruction = str ''Calculate: '' @ numberToString (Integer a) @ str '' '' @ op @
                       str '' '' @ numberToString (Integer b)
     in andThen (getInstructionEncoding d tape3) (\<lambda>(instructionEncoding, tape4).
        andThen (getResponseEncoding d tape4) (\<lambda>(responseEncoding, tape5).
        andThen (encodeWith instruction instructionEncoding) (\<lambda>encodedInstruction.
        andThen (encodeWith (numberToString (Integer result)) responseEncoding) (\<lambda>answer.
        Inr ((JObject [(str ''type'', JString (str ''encoded_instruction'')),
                       (str ''instruction'', JString encodedInstruction),
                       (str ''instructionEncoding'', encodingValue instructionEncoding),
                       (str ''responseEncoding'', encodingValue responseEncoding)],
              answer), tape5))))))))"

text \<open>
  The loop of \<open>generatePatternExtraction\<close> that pushes \<open>{id: i + 1, value: randomInt(10, 100)}\<close>:
  \<open>k\<close> rounds are left, \<open>i\<close> is the loop variable.
\<close>

fun pushItems :: "nat \<Rightarrow> int \<Rightarrow> (int \<times> int) list \<Rightarrow> buffer \<Rightarrow> js_error + (int \<times> int) list \<times> buffer" where
  "pushItems 0 i items tape = Inr (items, tape)"
| "pushItems (Suc k) i items tape =
     andThen (randomInt 10 100 tape) (\<lambda>(v, tape'). pushItems k (i + 1) (items @ [(i + 1, v)]) tape')"

text \<open>\<open>Math.max(...xs)\<close> and \<open>Math.min(...xs)\<close>, which are infinite for no argument.\<close>

fun mathMax :: "int list \<Rightarrow> jsnumber" where
  "mathMax [] = NegInfinity"
| "mathMax (x # xs) = Integer (foldl max x xs)"

fun mathMin :: "int list \<Rightarrow> jsnumber" where
  "mathMin [] = PosInfinity"
| "mathMin (x # xs) = Integer (foldl min x xs)"

definition queries :: "(jsstring \<times> ((int \<times> int) list \<Rightarrow> jsnumber)) list" where
  "queries =
     [(str ''sum(items[*].value)'', \<lambda>data. Integer (foldl (\<lambda>s i. s + snd i) 0 data)),
      (str ''max(items[*].value)'', \<lambda>data. mathMax (map snd data)),
      (str ''min(items[*].value)'', \<lambda>data. mathMin (map snd data)),
      (str ''count(items)'', \<lambda>data. Integer (int (length data)))]"

definition generatePatternExtraction :: builder where
  "generatePatternExtraction d tape =
     (let count' = (if d = str ''easy'' then 3 else if d = str ''medium'' then 5 else 7)
      in andThen (pushItems count' 0 [] tape) (\<lambda>(items, tape1).
         andThen (randomElement queries tape1) (\<lambda>(selected, tape2).
         let result = snd selected items
         in andThen (getResponseEncoding d tape2) (\<lambda>(responseEncoding, tape3).
            andThen (encodeWith (numberToString result) responseEncoding) (\<lambda>answer.
            Inr ((JObject [(str ''type'', JString (str ''pattern_extraction'')),
                           (str ''data'', JObject [(str ''items'', JArray (map (\<lambda>(i, v).
                              JObject [(str ''id'', JNumber (Integer i)),
                                       (str ''value'', JNumber (Integer v))]) items))]),
                           (str ''query'', JString (fst selected)),
                           (str ''responseEncoding'', encodingValue responseEncoding)],
                  answer), tape3))))))"

text \<open>
  \<open>generateFunctionExecution\<close> and \<open>generateChainedOperations\<close> call the puzzle
  functions of \<open>src/functions\<close>, \<open>Math.random\<close> and \<open>Math.pow\<close>, whose doubles leave the
  integers: they are parameters of \<open>generatePayload\<close> and \<open>generate\<close>, which use nothing
  of a builder but the payload and the expected answer it returns, or the exception it
  throws. What is proved of \<open>generate\<close> holds for every pair of builders.
\<close>

definition generatePayload :: "builder \<Rightarrow> builder \<Rightarrow> jsstring \<Rightarrow> builder" where
  "generatePayload generateFunctionExecution generateChainedOperations type' d tape =
     (if type' = str ''function_execution'' then generateFunctionExecution d tape
      else if type' = str ''chained_operations'' then generateChainedOperations d tape
      else if type' = str ''encoded_instruction'' then generateEncodedInstruction d tape
      else if type' = str ''pattern_extraction'' then generatePatternExtraction d tape
      else if type' = str ''code_transform'' then generateCodeTransform d tape
      else Inl (Error (str ''Unknown challenge type: '' @ type')))"

text \<open>\<open>generate\<close> reads the clock once, for \<open>expiresAt\<close>.\<close>

definition generate ::
  "hmac \<Rightarrow> builder \<Rightarrow> builder \<Rightarrow> UnCaptchaConfig \<Rightarrow> Overrides \<Rightarrow> int \<Rightarrow> buffer \<Rightarrow>
   js_error + (Challenge \<times> jsstring) \<times> buffer" where
  "generate H generateFunctionExecution generateChainedOperations cfg overrides now tape =
     andThen
       (case overrideType overrides of
          Some t \<Rightarrow> Inr (t, tape)
        | None \<Rightarrow> randomElement (challengeTypes cfg) tape)
       (\<lambda>(type', tape1).
     let difficulty' =
           (case overrideDifficulty overrides of Some d \<Rightarrow> d | None \<Rightarrow> defaultDifficulty cfg)
     in andThen
          (generatePayload generateFunctionExecution generateChainedOperations type' difficulty' tape1)
       (\<lambda>((payload', answer), tape2).
     andThen (generateId 32 tape2)
       (\<lambda>(id', tape3).
     let expiresAt' = now + expirationMs cfg;
         signatureData = JSON_stringify
           [(str ''id'', JString id'),
            (str ''type'', JString type'),
            (str ''payload'', payload'),
            (str ''expiresAt'', JNumber (Integer expiresAt')),
            (str ''expectedAnswer'', JString answer)];
         signature' = signChallenge H signatureData (secret cfg)
     in Inr ((\<lparr>ident = id', kind = type', difficulty = difficulty', payload = payload',
               expiresAt = expiresAt', signature = signature'\<rparr>, answer), tape3))))"

section \<open>Sequences of calls\<close>

text \<open>
  Successive calls of \<open>recordAttempt\<close> for one key, at the given readings of the clock,
  and successive calls of \<open>verifyStateless\<close> by one client, each with its own clock,
  challenge and solution. Each call runs in the state the call before it has left.
\<close>

fun attempts :: "int list \<Rightarrow> jsstring \<Rightarrow> RateLimiter \<Rightarrow> AttemptResult list \<times> RateLimiter" where
  "attempts [] key rl = ([], rl)"
| "attempts (t # ts) key rl =
     (let (r, rl1) = recordAttempt t key rl; (rs, rl2) = attempts ts key rl1 in (r # rs, rl2))"

fun statelessCalls ::
  "hmac \<Rightarrow> ((nat \<Rightarrow> int) \<times> Challenge \<times> ChallengeSolution) list \<Rightarrow> jsstring option \<Rightarrow>
   ChallengeVerifier \<Rightarrow> VerificationResult list \<times> ChallengeVerifier" where
  "statelessCalls H [] clientIdentifier v = ([], v)"
| "statelessCalls H ((now, challenge, sol) # calls) clientIdentifier v =
     (let (r, v1) = verifyStateless H now challenge sol clientIdentifier v;
          (rs, v2) = statelessCalls H calls clientIdentifier v1
      in (r # rs, v2))"

section \<open>Concrete inputs\<close>

text \<open>
  The inputs at which the theorems below are instantiated: a keyed function in the place
  of HMAC-SHA256 that returns its message (so it has no collisions), a verifier with the
  default configuration, and a \<open>code_transform\<close> challenge as \<open>generateCodeTransform\<close>
  builds it.
\<close>

definition exampleH :: hmac where
  "exampleH key message = message"

definition exampleVerifier :: ChallengeVerifier where
  "exampleVerifier = createVerifier (defaultConfig (str ''s3cret''))"

definition examplePayload :: jsvalue where
  "examplePayload =
     JObject [(str ''type'', JString (str ''code_transform'')),
              (str ''code'', JString (str ''const x = 3; const y = 4; return x + y;'')),
              (str ''transform'', JString (str ''execute'')),
              (str ''responseEncoding'', JString (str ''plain''))]"

definition exampleChallenge :: Challenge where
  "exampleChallenge =
     \<lparr>ident = str ''0a1b'', kind = str ''code_transform'', difficulty = str ''easy'',
      payload = examplePayload, expiresAt = 31000, signature = str ''00''\<rparr>"

definition exampleSolution :: ChallengeSolution where
  "exampleSolution = \<lparr>challengeId = str ''0a1b'', solution = str ''7''\<rparr>"

definition exampleSigned :: Challenge where
  "exampleSigned =
     exampleChallenge\<lparr>signature :=
       signChallenge exampleH
         (JSON_stringify
            [(str ''id'', JString (str ''0a1b'')),
             (str ''type'', JString (str ''code_transform'')),
             (str ''payload'', examplePayload),
             (str ''expiresAt'', JNumber (Integer 31000)),
             (str ''expectedAnswer'', JString (str ''7''))])
         (str ''s3cret'')\<rparr>"

definition exampleStored :: ChallengeVerifier where
  "exampleStored = storeChallenge (str ''0a1b'') (str ''7'') 31000 exampleVerifier"

definition exampleLimiter :: RateLimiter where
  "exampleLimiter = createRateLimiter \<lparr>maxAttempts = 2, windowMs = 1000\<rparr>"

definition exampleLimited :: ChallengeVerifier where
  "exampleLimited =
     createVerifier ((defaultConfig (str ''s3cret''))\<lparr>rateLimit := \<lparr>maxAttempts = 2, windowMs = 1000\<rparr>\<rparr>)"

text \<open>
  A run of \<open>generate\<close>: the type and the difficulty are given, the random bytes are
  \<open>2\<close> and \<open>3\<close> for the two operands of \<open>generateCodeTransform\<close> and then the 32 bytes
  of the identifier. The two builders that are parameters are not reached.
\<close>

definition noBuilder :: builder where
  "noBuilder d tape = Inl (Error (str ''not used''))"

definition exampleOverrides :: Overrides where
  "exampleOverrides =
     \<lparr>overrideType = Some (str ''code_transform''), overrideDifficulty = Some (str ''easy'')\<rparr>"

definition exampleIdBytes :: buffer where
  "exampleIdBytes = [10, 27, 44, 61, 78, 95, 112, 129, 146, 163, 180, 197, 214, 231, 248, 9,
                     26, 43, 60, 77, 94, 111, 128, 145, 162, 179, 196, 213, 230, 247, 8, 25]"

definition exampleTape :: buffer where
  "exampleTape = [2, 3] @ exampleIdBytes"

definition exampleGenerated :: Challenge where
  "exampleGenerated =
     \<lparr>ident = toString_hex exampleIdBytes, kind = str ''code_transform'',
      difficulty = str ''easy'', payload = examplePayload, expiresAt = 31000,
      signature =
        signChallenge exampleH
          (JSON_stringify
             [(str ''id'', JString (toString_hex exampleIdBytes)),
              (str ''type'', JString (str ''code_transform'')),
              (str ''payload'', examplePayload),
              (str ''expiresAt'', JNumber (Integer 31000)),
              (str ''expectedAnswer'', JString (str ''7''))])
          (str ''s3cret'')\<rparr>"

text \<open>
  A \<open>function_execution\<close> payload as \<open>generateFunctionExecution\<close> builds it when the
  function is \<open>charAtWrapped\<close>, whose parameters are \<open>['alphabet', randomInt(0, 20)]\<close> and
  which has no entry in the \<open>codeMap\<close> of \<open>getFunctionCodeString\<close>; a builder that returns it
  with the index \<open>0\<close> and the answer \<open>charAtWrapped('alphabet', 0)\<close>; and the
  \<open>code_transform\<close> payload above with another operator in its code.
\<close>

definition exampleFunctionPayload :: "jsnumber \<Rightarrow> jsvalue" where
  "exampleFunctionPayload index =
     JObject [(str ''type'', JString (str ''function_execution'')),
              (str ''functionName'', JString (str ''charAtWrapped'')),
              (str ''functionCode'',
               JString (str ''function charAtWrapped(...args) { /* implementation */ }'')),
              (str ''parameters'', JArray [JString (str ''alphabet''), JNumber index]),
              (str ''responseEncoding'', JString (str ''plain''))]"

definition exampleFunctionExecution :: builder where
  "exampleFunctionExecution d tape = Inr ((exampleFunctionPayload (Integer 0), str ''a''), tape)"

definition exampleFunctionOverrides :: Overrides where
  "exampleFunctionOverrides =
     \<lparr>overrideType = Some (str ''function_execution''), overrideDifficulty = Some (str ''easy'')\<rparr>"

definition exampleFunctionGenerated :: Challenge where
  "exampleFunctionGenerated =
     \<lparr>ident = toString_hex exampleIdBytes, kind = str ''function_execution'',
      difficulty = str ''easy'', payload = exampleFunctionPayload (Integer 0), expiresAt = 31000,
      signature =
        signChallenge exampleH
          (JSON_stringify
             [(str ''id'', JString (toString_hex exampleIdBytes)),
              (str ''type'', JString (str ''function_execution'')),
              (str ''payload'', exampleFunctionPayload (Integer 0)),
              (str ''expiresAt'', JNumber (Integer 31000)),
              (str ''expectedAnswer'', JString (str ''a''))])
          (str ''s3cret'')\<rparr>"

definition exampleAlteredPayload :: jsvalue where
  "exampleAlteredPayload =
     JObject [(str ''type'', JString (str ''code_transform'')),
              (str ''code'', JString (str ''const x = 3; const y = 4; return x * y;'')),
              (str ''transform'', JString (str ''execute'')),
              (str ''responseEncoding'', JString (str ''plain''))]"

section \<open>UTF-8: decoding what was encoded\<close>

lemma dec1: "b < 0x80 \<Longrightarrow> utf8Decode 0 0 0x80 0xBF (b # bs) = b # utf8Decode 0 0 0x80 0xBF bs"
  by simp

lemma dec2: "0xC2 \<le> b0 \<Longrightarrow> b0 \<le> 0xDF \<Longrightarrow> 0x80 \<le> b1 \<Longrightarrow> b1 \<le> 0xBF \<Longrightarrow>
  utf8Decode 0 0 0x80 0xBF (b0 # b1 # bs) = ((b0 mod 0x20) * 0x40 + b1 mod 0x40) # utf8Decode 0 0 0x80 0xBF bs"
  by simp

lemma dec3: "0xE0 \<le> b0 \<Longrightarrow> b0 \<le> 0xEF \<Longrightarrow> (if b0 = 0xE0 then 0xA0 else 0x80) \<le> b1 \<Longrightarrow> b1 \<le> (if b0 = 0xED then 0x9F else 0xBF)
  \<Longrightarrow> 0x80 \<le> b2 \<Longrightarrow> b2 \<le> 0xBF \<Longrightarrow>
  utf8Decode 0 0 0x80 0xBF (b0 # b1 # b2 # bs) = (((b0 mod 0x10) * 0x40 + b1 mod 0x40) * 0x40 + b2 mod 0x40) # utf8Decode 0 0 0x80 0xBF bs"
  by simp

lemma dec4: "0xF0 \<le> b0 \<Longrightarrow> b0 \<le> 0xF4 \<Longrightarrow> (if b0 = 0xF0 then 0x90 else 0x80) \<le> b1 \<Longrightarrow> b1 \<le> (if b0 = 0xF4 then 0x8F else 0xBF)
  \<Longrightarrow> 0x80 \<le> b2 \<Longrightarrow> b2 \<le> 0xBF \<Longrightarrow> 0x80 \<le> b3 \<Longrightarrow> b3 \<le> 0xBF \<Longrightarrow>
  utf8Decode 0 0 0x80 0xBF (b0 # b1 # b2 # b3 # bs) = ((((b0 mod 8) * 0x40 + b1 mod 0x40) * 0x40 + b2 mod 0x40) * 0x40 + b3 mod 0x40) # utf8Decode 0 0 0x80 0xBF bs"
  by simp

lemma split64: "(c::nat) = (c div 64) * 64 + c mod 64" by simp
lemma split64_2: "(c::nat) = (c div 4096) * 4096 + ((c div 64) mod 64) * 64 + c mod 64"
proof -
  have "c div 64 = (c div 64 div 64) * 64 + (c div 64) mod 64" by simp
  moreover have "c div 64 div 64 = c div 4096" by (simp add: div_mult2_eq[symmetric])
  ultimately have "c div 64 = (c div 4096) * 64 + (c div 64) mod 64" by simp
  then have "(c div 64) * 64 = (c div 4096) * 4096 + ((c div 64) mod 64) * 64" by simp
  then show ?thesis using split64[of c] by linarith
qed
lemma split64_3: "(c::nat) = (c div 262144) * 262144 + ((c div 4096) mod 64) * 4096 + ((c div 64) mod 64) * 64 + c mod 64"
proof -
  have "c div 4096 = (c div 4096 div 64) * 64 + (c div 4096) mod 64" by simp
  moreover have "c div 4096 div 64 = c div 262144" by (simp add: div_mult2_eq[symmetric])
  ultimately have "c div 4096 = (c div 262144) * 64 + (c div 4096) mod 64" by simp
  then have "(c div 4096) * 4096 = (c div 262144) * 262144 + ((c div 4096) mod 64) * 4096" by simp
  then show ?thesis using split64_2[of c] by linarith
qed

lemma mod_off: "a < m \<Longrightarrow> (k * m + a) mod m = (a::nat)" by simp

lemma utf8Decode_utf8Bytes:
  assumes "scalar c"
  shows "utf8Decode 0 0 0x80 0xBF (utf8Bytes c @ bs) = c # utf8Decode 0 0 0x80 0xBF bs"
proof -
  consider "c < 0x80" | "0x80 \<le> c \<and> c < 0x800" | "0x800 \<le> c \<and> c < 0x10000" | "0x10000 \<le> c \<and> c < 0x110000"
    using assms unfolding scalar_def by linarith
  then show ?thesis
  proof cases
    case 1 then show ?thesis by (simp add: utf8Bytes_def)
  next
    case 2
    define a d where "a = c div 64" and "d = c mod 64"
    have c: "c = a * 64 + d" unfolding a_def d_def by simp
    have bd: "d < 64" unfolding d_def by simp
    have ba: "2 \<le> a" "a < 32" using 2 c bd by linarith+
    have u: "utf8Bytes c = [0xC0 + a, 0x80 + d]" using 2 by (simp add: utf8Bytes_def a_def d_def)
    have m: "(0xC0 + a) mod 0x20 = a" "(0x80 + d) mod 0x40 = d"
      using mod_off[of a 32 6] mod_off[of d 64 2] ba bd by simp_all
    have a: "0xC2 \<le> 0xC0 + a" "0xC0 + a \<le> 0xDF" "0x80 \<le> 0x80 + d" "0x80 + d \<le> 0xBF"
      using ba bd by simp_all
    show ?thesis unfolding u append_Cons append_Nil dec2[OF a] m using c by simp
  next
    case 3
    define a b d where "a = c div 4096" and "b = (c div 64) mod 64" and "d = c mod 64"
    have c: "c = a * 4096 + b * 64 + d" unfolding a_def b_def d_def by (rule split64_2)
    have bd: "d < 64" "b < 64" unfolding d_def b_def by simp_all
    have ba: "a < 16" using 3 c bd by linarith
    have u: "utf8Bytes c = [0xE0 + a, 0x80 + b, 0x80 + d]" using 3 by (simp add: utf8Bytes_def a_def b_def d_def)
    have ns: "c < 0xD800 \<or> 0xE000 \<le> c" using assms unfolding scalar_def isHigh_def isLow_def by linarith
    have m: "(0xE0 + a) mod 0x10 = a" "(0x80 + b) mod 0x40 = b" "(0x80 + d) mod 0x40 = d"
      using mod_off[of a 16 14] mod_off[of b 64 2] mod_off[of d 64 2] ba bd by simp_all
    have a0: "0xE0 \<le> 0xE0 + a" "0xE0 + a \<le> 0xEF" using ba by simp_all
    have a1: "(if 0xE0 + a = 0xE0 then 0xA0 else 0x80) \<le> 0x80 + b" using 3 c bd by (simp; linarith)
    have a2: "0x80 + b \<le> (if 0xE0 + a = 0xED then 0x9F else 0xBF)" using 3 ns c bd by (simp; linarith)
    have a3: "0x80 \<le> 0x80 + d" "0x80 + d \<le> 0xBF" using bd by simp_all
    show ?thesis unfolding u append_Cons append_Nil dec3[OF a0 a1 a2 a3] m using c by simp
  next
    case 4
    define a b e d where "a = c div 262144" and "b = (c div 4096) mod 64" and "e = (c div 64) mod 64" and "d = c mod 64"
    have c: "c = a * 262144 + b * 4096 + e * 64 + d" unfolding a_def b_def d_def e_def by (rule split64_3)
    have bd: "d < 64" "b < 64" "e < 64" unfolding d_def b_def e_def by simp_all
    have ba: "a < 5" using 4 c bd by linarith
    have u: "utf8Bytes c = [0xF0 + a, 0x80 + b, 0x80 + e, 0x80 + d]" using 4 by (simp add: utf8Bytes_def a_def b_def d_def e_def)
    have m: "(0xF0 + a) mod 8 = a" "(0x80 + b) mod 0x40 = b" "(0x80 + e) mod 0x40 = e" "(0x80 + d) mod 0x40 = d"
      using mod_off[of a 8 30] mod_off[of b 64 2] mod_off[of e 64 2] mod_off[of d 64 2] ba bd by simp_all
    have a0: "0xF0 \<le> 0xF0 + a" "0xF0 + a \<le> 0xF4" using ba by simp_all
    have a1: "(if 0xF0 + a = 0xF0 then 0x90 else 0x80) \<le> 0x80 + b" using 4 c bd by (simp; linarith)
    have a2: "0x80 + b \<le> (if 0xF0 + a = 0xF4 then 0x8F else 0xBF)" using 4 c bd ba by (simp; linarith)
    have a3: "0x80 \<le> 0x80 + e" "0x80 + e \<le> 0xBF" "0x80 \<le> 0x80 + d" "0x80 + d \<le> 0xBF" using bd by simp_all
    show ?thesis unfolding u append_Cons append_Nil dec4[OF a0 a1 a2 a3] m using c by simp
  qed
qed



lemma utf8Decode_concat:
  "\<forall>c\<in>set cs. scalar c \<Longrightarrow>
   utf8Decode 0 0 0x80 0xBF (concat (map utf8Bytes cs) @ bs) = cs @ utf8Decode 0 0 0x80 0xBF bs"
  by (induction cs) (simp_all add: utf8Decode_utf8Bytes)

lemma scalar_codePoints:
  "\<forall>u\<in>set us. u < 0x10000 \<Longrightarrow> \<forall>c\<in>set (codePoints us). scalar c"
proof (induction us rule: codePoints.induct)
  case 1 show ?case by simp
next
  case (2 u) then show ?case by (auto simp: scalar_def isHigh_def isLow_def)
next
  case (3 u v us)
  show ?case
  proof (cases "isHigh u \<and> isLow v")
    case True
    then have "scalar (0x10000 + (u - 0xD800) * 0x400 + (v - 0xDC00))"
      unfolding scalar_def isHigh_def isLow_def by auto
    then show ?thesis using 3 True by simp
  next
    case False
    have "scalar (if isHigh u \<or> isLow u then 0xFFFD else u)" using 3(3)
      by (auto simp: scalar_def isHigh_def isLow_def)
    then show ?thesis using 3 False by auto
  qed
qed

lemma utf8Decode_utf8Encode:
  "\<forall>u\<in>set us. u < 0x10000 \<Longrightarrow> utf8Decode 0 0 0x80 0xBF (utf8Encode us) = codePoints us"
  using utf8Decode_concat[OF scalar_codePoints, of us "[]"] by (simp add: utf8Encode_def)

lemma utf16Units_pair:
  assumes "isHigh u" "isLow v"
  shows "utf16Units (0x10000 + (u - 0xD800) * 0x400 + (v - 0xDC00)) = [u, v]"
proof -
  define a b where "a = u - 0xD800" and "b = v - 0xDC00"
  have ab: "a < 0x400" "b < 0x400" "u = 0xD800 + a" "v = 0xDC00 + b"
    using assms unfolding a_def b_def isHigh_def isLow_def by auto
  have "(a * 0x400 + b) div 0x400 = a" "(a * 0x400 + b) mod 0x400 = b" using ab by simp_all
  then show ?thesis unfolding utf16Units_def a_def[symmetric] b_def[symmetric] using ab by simp
qed

lemma utf16Units_codePoints:
  "wellFormed us \<Longrightarrow> \<forall>u\<in>set us. u < 0x10000 \<Longrightarrow> concat (map utf16Units (codePoints us)) = us"
proof (induction us rule: codePoints.induct)
  case 1 show ?case by simp
next
  case (2 u) then show ?case by (simp add: utf16Units_def)
next
  case (3 u v us)
  show ?case
  proof (cases "isHigh u")
    case True
    with 3 show ?thesis by (simp add: utf16Units_pair)
  next
    case False
    with 3 show ?thesis by (simp add: utf16Units_def)
  qed
qed

lemma utf8Bytes_lt: "c < 0x110000 \<Longrightarrow> \<forall>b\<in>set (utf8Bytes c). b < 256"
  unfolding utf8Bytes_def by auto

lemma utf8Encode_lt:
  assumes "\<forall>u\<in>set us. u < 0x10000" shows "\<forall>b\<in>set (utf8Encode us). b < 256"
  using scalar_codePoints[OF assms] utf8Bytes_lt unfolding utf8Encode_def scalar_def by auto

lemma map_unat_of_nat8: "\<forall>b\<in>set bs. b < 256 \<Longrightarrow> map unat (map of_nat bs :: 8 word list) = bs"
  by (induction bs) (simp_all add: unat_of_nat)

lemma unat16_lt: "\<forall>u\<in>set (map unat (s :: 16 word list)). u < 0x10000"
proof -
  have "unat (w :: 16 word) < 0x10000" for w using unsigned_less[of w, where 'a=nat] by simp
  then show ?thesis by simp
qed

lemma map_of_nat_unat16: "map of_nat (map unat (s :: 16 word list)) = s"
  by (induction s) simp_all

lemma toString_Buffer_from:
  assumes "isWellFormed s" shows "toString_utf8 (Buffer_from s) = s"
proof -
  let ?us = "map unat s"
  have 1: "map unat (Buffer_from s) = utf8Encode ?us"
    unfolding Buffer_from_def by (rule map_unat_of_nat8[OF utf8Encode_lt[OF unat16_lt]])
  have 2: "utf8Decode 0 0 0x80 0xBF (utf8Encode ?us) = codePoints ?us"
    by (rule utf8Decode_utf8Encode[OF unat16_lt])
  have 3: "concat (map utf16Units (codePoints ?us)) = ?us"
    using assms unfolding isWellFormed_def by (rule utf16Units_codePoints[OF _ unat16_lt])
  show ?thesis unfolding toString_utf8_def 1 2 3 by (rule map_of_nat_unat16)
qed

lemma Buffer_from_inj:
  "isWellFormed a \<Longrightarrow> isWellFormed b \<Longrightarrow> Buffer_from a = Buffer_from b \<Longrightarrow> a = b"
  by (metis toString_Buffer_from)

section \<open>Encodings: decoding what was encoded\<close>

lemma unat_of_nat16: "n < 65536 \<Longrightarrow> unat (of_nat n :: 16 word) = n"
  by (simp add: unat_of_nat)

lemma unat_of_nat8: "n < 256 \<Longrightarrow> unat (of_nat n :: 8 word) = n"
  by (simp add: unat_of_nat)

lemma unat8_lt: "unat (b :: 8 word) < 256"
  using unsigned_less[of b, where 'a=nat] by simp

lemma unhex_hexDigit: "n < 16 \<Longrightarrow> unhex (hexDigit n) = Some n"
  by (auto simp: unhex_def hexDigit_def unat_of_nat16 Let_def)

lemma unhex_low_byte: "unat c mod 256 = unat d mod 256 \<Longrightarrow> unhex c = unhex d"
  by (simp add: unhex_def)

lemma unhex_normal: "unhex (of_nat (unat c mod 256)) = unhex c"
proof (rule unhex_low_byte)
  have "unat c mod 256 < 65536" by (rule less_trans[of _ 256]) simp_all
  then have "unat (of_nat (unat c mod 256) :: 16 word) = unat c mod 256" by (rule unat_of_nat16)
  then show "unat (of_nat (unat c mod 256) :: 16 word) mod 256 = unat c mod 256" by simp
qed

lemma hexDecode_normal: "hexDecode (map (\<lambda>u. of_nat (unat u mod 256)) s) = hexDecode s"
proof (induction s rule: hexDecode.induct)
  case (1 a b cs)
  show ?case
  proof (cases "unhex a")
    case None
    then show ?thesis by (simp add: unhex_normal)
  next
    case sa: (Some x)
    show ?thesis
    proof (cases "unhex b")
      case None
      then show ?thesis by (simp add: unhex_normal sa)
    next
      case sb: (Some y)
      show ?thesis using 1[OF sa sb] by (simp add: unhex_normal sa sb)
    qed
  qed
qed simp_all

lemma hexDecode_low_bytes:
  assumes "map (\<lambda>u. unat u mod 256) s = map (\<lambda>u. unat u mod 256) t"
  shows "hexDecode s = hexDecode t"
proof -
  have "map (of_nat :: nat \<Rightarrow> 16 word) (map (\<lambda>u. unat u mod 256) s) =
        map of_nat (map (\<lambda>u. unat u mod 256) t)" using assms by (rule arg_cong)
  then have "map (\<lambda>u. of_nat (unat u mod 256) :: 16 word) s = map (\<lambda>u. of_nat (unat u mod 256)) t"
    by (simp only: map_map comp_def)
  then have "hexDecode (map (\<lambda>u. of_nat (unat u mod 256)) s) =
             hexDecode (map (\<lambda>u. of_nat (unat u mod 256)) t)" by (rule arg_cong)
  then show ?thesis by (simp only: hexDecode_normal)
qed

lemma hexDecode_toString_hex: "hexDecode (toString_hex buf) = map unat buf"
proof (induction buf)
  case Nil show ?case by (simp add: toString_hex_def)
next
  case (Cons b buf)
  have d: "unat b div 16 < 16" "unat b mod 16 < 16" using unat8_lt[of b] by simp_all
  have "toString_hex (b # buf) = hexDigit (unat b div 16) # hexDigit (unat b mod 16) # toString_hex buf"
    by (simp add: toString_hex_def)
  then show ?case using Cons by (simp add: unhex_hexDigit[OF d(1)] unhex_hexDigit[OF d(2)])
qed

lemma Buffer_from_hex_toString_hex: "Buffer_from_hex (toString_hex buf) = buf"
  by (simp add: Buffer_from_hex_def hexDecode_toString_hex map_idI)

lemma unbase64_of_nat:
  assumes "m < 256"
  shows "unbase64 (of_nat m) =
     (if 65 \<le> m \<and> m \<le> 90 then Some (m - 65)
      else if 97 \<le> m \<and> m \<le> 122 then Some (m - 71)
      else if 48 \<le> m \<and> m \<le> 57 then Some (m + 4)
      else if m = 43 \<or> m = 45 then Some 62
      else if m = 47 \<or> m = 95 then Some 63
      else None)"
proof -
  have "m < 65536" using assms by simp
  then have "unat (of_nat m :: 16 word) mod 256 = m" using assms by (simp add: unat_of_nat16)
  then show ?thesis unfolding unbase64_def Let_def by simp
qed

lemma low_byte_of_nat16: "m < 256 \<Longrightarrow> unat (of_nat m :: 16 word) mod 256 = m"
  by (simp add: unat_of_nat16)

lemma unbase64_base64Char:
  assumes "n < 64"
  shows "unbase64 (base64Char n) = Some n" and "unat (base64Char n) mod 256 \<noteq> 61"
proof -
  define m where "m = (if n < 26 then 65 + n else if n < 52 then 71 + n else if n < 62 then n - 4
             else if n = 62 then 43 else 47)"
  have c: "base64Char n = of_nat m" unfolding base64Char_def m_def ..
  have lt: "m < 256" unfolding m_def using assms by auto
  have "(if 65 \<le> m \<and> m \<le> 90 then Some (m - 65)
      else if 97 \<le> m \<and> m \<le> 122 then Some (m - 71)
      else if 48 \<le> m \<and> m \<le> 57 then Some (m + 4)
      else if m = 43 \<or> m = 45 then Some 62
      else if m = 47 \<or> m = 95 then Some 63
      else None) = Some n"
    unfolding m_def using assms by auto
  then show "unbase64 (base64Char n) = Some n" unfolding c unbase64_of_nat[OF lt] .
  have "m \<noteq> 61" unfolding m_def using assms by auto
  then show "unat (base64Char n) mod 256 \<noteq> 61" unfolding c low_byte_of_nat16[OF lt] .
qed

lemma sextets_base64Char: "n < 64 \<Longrightarrow> sextets (base64Char n # cs) = n # sextets cs"
  by (simp add: unbase64_base64Char)

lemma sextets_pad: "sextets (61 # cs) = []"
  by simp

lemma q1: "b < 256 \<Longrightarrow> ((a mod 4) * 16 + b div 16) div 16 = a mod (4::nat)"
  by (simp add: div_add1_eq)
lemma q2: "b < 256 \<Longrightarrow> ((a mod 4) * 16 + b div 16) mod 16 = b div (16::nat)"
  by simp
lemma q3: "c < 256 \<Longrightarrow> ((b mod 16) * 4 + c div 64) div 4 = b mod (16::nat)"
  by (simp add: div_add1_eq)
lemma q4: "c < 256 \<Longrightarrow> ((b mod 16) * 4 + c div 64) mod 4 = c div (64::nat)"
  by simp

lemma sextetBytes_base64Encode:
  "\<forall>b\<in>set bs. b < 256 \<Longrightarrow> sextetBytes (sextets (base64Encode bs)) = bs"
proof (induction bs rule: base64Encode.induct)
  case (1 a b c bs)
  have lt: "a div 4 < 64" "(a mod 4) * 16 + b div 16 < 64" "(b mod 16) * 4 + c div 64 < 64" "c mod 64 < 64"
    using 1(2) by auto
  have bd: "b < 256" "c < 256" using 1(2) by auto
  have s: "sextets (base64Encode (a # b # c # bs)) =
     a div 4 # ((a mod 4) * 16 + b div 16) # ((b mod 16) * 4 + c div 64) # c mod 64 #
       sextets (base64Encode bs)"
    by (simp only: base64Encode.simps append_Cons append_Nil sextets_base64Char[OF lt(1)]
          sextets_base64Char[OF lt(2)] sextets_base64Char[OF lt(3)] sextets_base64Char[OF lt(4)])
  have ih: "sextetBytes (sextets (base64Encode bs)) = bs" using 1 by simp
  have m: "b div 16 mod 16 = b div 16" "c div 64 mod 4 = c div 64" using bd by simp_all
  show ?case unfolding s by (simp add: ih q1[OF bd(1)] q3[OF bd(2)] m)
next
  case (2 a b)
  have lt: "a div 4 < 64" "(a mod 4) * 16 + b div 16 < 64" "(b mod 16) * 4 < 64"
    using 2 by auto
  have bd: "b < 256" using 2 by auto
  have z: "((b mod 16) * 4) div 4 = b mod 16" by simp
  have s: "sextets (base64Encode [a, b]) = [a div 4, (a mod 4) * 16 + b div 16, (b mod 16) * 4]"
    by (simp only: base64Encode.simps sextets_base64Char[OF lt(1)]
          sextets_base64Char[OF lt(2)] sextets_base64Char[OF lt(3)] sextets_pad)
  have m: "b div 16 mod 16 = b div 16" using bd by simp
  show ?case unfolding s by (simp add: q1[OF bd] m z)
next
  case (3 a)
  have lt: "a div 4 < 64" "(a mod 4) * 16 < 64" using 3 by auto
  have s: "sextets (base64Encode [a]) = [a div 4, (a mod 4) * 16]"
    by (simp only: base64Encode.simps sextets_base64Char[OF lt(1)]
          sextets_base64Char[OF lt(2)] sextets_pad)
  show ?case unfolding s by simp
next
  case 4 show ?case by simp
qed

lemma Buffer_from_base64_toString_base64: "Buffer_from_base64 (toString_base64 buf) = buf"
proof -
  have "\<forall>b\<in>set (map unat buf). b < 256" using unat8_lt by auto
  then show ?thesis
    by (simp add: Buffer_from_base64_def toString_base64_def sextetBytes_base64Encode map_idI)
qed

lemma rot13_arith: "k < 26 \<Longrightarrow> ((k + 13) mod 26 + 13) mod 26 = (k::nat)"
proof (cases "k < 13")
  case True
  then have "(k + 13) mod 26 = k + 13" by simp
  then show ?thesis by simp
next
  case False
  assume "k < 26"
  with False have "(k + 13) mod 26 = k - 13" by (simp add: mod_if)
  with False \<open>k < 26\<close> show ?thesis by simp
qed

lemma rot13Char_involution: "rot13Char (rot13Char c) = c"
proof (cases "(65 \<le> unat c \<and> unat c \<le> 90) \<or> (97 \<le> unat c \<and> unat c \<le> 122)")
  case False
  have "rot13Char c = c" by (simp only: rot13Char_def Let_def False if_False)
  then show ?thesis by simp
next
  case True
  define base :: nat where "base = (if unat c \<le> 90 then 65 else 97)"
  define k where "k = unat c - base"
  define m where "m = (k + 13) mod 26 + base"
  have k: "k < 26" "unat c = base + k" using True unfolding k_def base_def by auto
  have r: "rot13Char c = of_nat m"
    using True unfolding rot13Char_def Let_def m_def k_def base_def by simp
  have mlt: "m < 65536" unfolding m_def base_def by (auto intro: less_le_trans[OF mod_less_divisor])
  have um: "unat (of_nat m :: 16 word) = m" by (rule unat_of_nat16[OF mlt])
  have rng: "base \<le> m" "m < base + 26" unfolding m_def by simp_all
  have letter: "(65 \<le> m \<and> m \<le> 90) \<or> (97 \<le> m \<and> m \<le> 122)"
    using rng unfolding base_def by (auto split: if_splits)
  have samebase: "(if m \<le> 90 then 65 else 97) = base"
    using rng unfolding base_def by (auto split: if_splits)
  have "rot13Char (of_nat m) = of_nat ((m - base + 13) mod 26 + base)"
    unfolding rot13Char_def Let_def um using letter samebase by simp
  also have "m - base = (k + 13) mod 26" unfolding m_def by simp
  also have "((k + 13) mod 26 + 13) mod 26 = k" by (rule rot13_arith[OF k(1)])
  also have "of_nat (k + base) = (of_nat (unat c) :: 16 word)" using k(2) by (simp add: add.commute)
  finally show ?thesis unfolding r by simp
qed

lemma encodeRot13_involution: "encodeRot13 (encodeRot13 v) = v"
  by (simp add: encodeRot13_def rot13Char_involution map_idI)

lemma decodeBase64_encodeBase64: "isWellFormed v \<Longrightarrow> decodeBase64 (encodeBase64 v) = v"
  by (simp add: decodeBase64_def encodeBase64_def Buffer_from_base64_toString_base64
        toString_Buffer_from)

lemma decodeHex_encodeHex: "isWellFormed v \<Longrightarrow> decodeHex (encodeHex v) = v"
  by (simp add: decodeHex_def encodeHex_def Buffer_from_hex_toString_hex toString_Buffer_from)

lemma str_distinct:
  "str ''plain'' \<noteq> str ''base64''" "str ''plain'' \<noteq> str ''hex''" "str ''plain'' \<noteq> str ''rot13''"
  "str ''base64'' \<noteq> str ''hex''" "str ''base64'' \<noteq> str ''rot13''" "str ''hex'' \<noteq> str ''rot13''"
  by (simp_all add: str_def)

text \<open>
  Claim C4, as amended. For a string without unpaired surrogates and each of the four
  encodings, \<open>decode\<close> of \<open>encode\<close> is the string itself; for \<open>plain\<close> and \<open>rot13\<close> this
  holds for every string. \<open>rot13\<close> is its own inverse: \<open>encode\<close> and \<open>decode\<close> are the same
  function on it.
\<close>

theorem decode_encode_wellFormed:
  "(encoding \<in> {str ''plain'', str ''base64'', str ''hex'', str ''rot13''} \<and> isWellFormed v \<longrightarrow>
      andThen (encode v encoding) (\<lambda>e. decode e encoding) = Inr v) \<and>
   (encoding \<in> {str ''plain'', str ''rot13''} \<longrightarrow>
      andThen (encode v encoding) (\<lambda>e. decode e encoding) = Inr v) \<and>
   encode v (str ''rot13'') = decode v (str ''rot13'') \<and>
   encodeRot13 v = decodeRot13 v"
  using str_distinct
  by (auto simp: encode_def decode_def andThen_def decodeBase64_encodeBase64 decodeHex_encodeHex
        decodeRot13_def encodeRot13_involution)

text \<open>
  The claim as stated fails for \<open>base64\<close> and \<open>hex\<close> at the string that consists of one
  unpaired surrogate: \<open>Buffer.from(value, 'utf-8')\<close> writes U+FFFD for it, which is what
  comes back.
\<close>

lemma Buffer_from_D800: "Buffer_from [0xD800] = [0xEF, 0xBF, 0xBD]"
  by (simp add: Buffer_from_def utf8Encode_def isHigh_def isLow_def utf8Bytes_def)

theorem decode_encode_unpaired_surrogate:
  "andThen (encode [0xD800] (str ''base64'')) (\<lambda>e. decode e (str ''base64'')) = Inr [0xFFFD] \<and>
   andThen (encode [0xD800] (str ''hex'')) (\<lambda>e. decode e (str ''hex'')) = Inr [0xFFFD] \<and>
   [0xFFFD] \<noteq> [0xD800 :: 16 word]"
  using str_distinct
  by (simp add: encode_def decode_def andThen_def encodeBase64_def decodeBase64_def
        encodeHex_def decodeHex_def Buffer_from_D800 toString_base64_def base64Char_def
        Buffer_from_base64_def unbase64_def toString_utf8_def utf16Units_def
        toString_hex_def hexDigit_def Buffer_from_hex_def unhex_def)

theorem decode_encode_wellFormed_witness:
  "str ''base64'' \<in> {str ''plain'', str ''base64'', str ''hex'', str ''rot13''} \<and>
   isWellFormed (str ''42'') \<and>
   encode (str ''42'') (str ''base64'') = Inr (str ''NDI='') \<and>
   decode (str ''NDI='') (str ''base64'') = Inr (str ''42'') \<and>
   andThen (encode (str ''42'') (str ''base64'')) (\<lambda>e. decode e (str ''base64'')) = Inr (str ''42'')"
proof -
  have h1: "str ''base64'' \<in> {str ''plain'', str ''base64'', str ''hex'', str ''rot13''}" by simp
  have h2: "isWellFormed (str ''42'')" by (simp add: isWellFormed_def str_def isHigh_def isLow_def)
  have c: "andThen (encode (str ''42'') (str ''base64'')) (\<lambda>e. decode e (str ''base64'')) = Inr (str ''42'')"
    using decode_encode_wellFormed [of "str ''base64''" "str ''42''"] h1 h2 by blast
  have e: "encode (str ''42'') (str ''base64'') = Inr (str ''NDI='')"
    using str_distinct
    by (simp add: encode_def encodeBase64_def Buffer_from_def utf8Encode_def isHigh_def isLow_def
          utf8Bytes_def toString_base64_def base64Char_def str_def)
  have d: "decode (str ''NDI='') (str ''base64'') = Inr (str ''42'')"
    using c unfolding e andThen_def by simp
  show ?thesis using h1 h2 c e d by blast
qed

lemma hexDecode_junk:
  "unhex c = None \<or> unhex d = None \<Longrightarrow> hexDecode (toString_hex buf @ c # d # cs) = map unat buf"
proof (induction buf)
  case Nil then show ?case by (auto simp: toString_hex_def split: option.splits)
next
  case (Cons b buf)
  have dd: "unat b div 16 < 16" "unat b mod 16 < 16" using unat8_lt[of b] by simp_all
  have "toString_hex (b # buf) @ c # d # cs =
        hexDigit (unat b div 16) # hexDigit (unat b mod 16) # (toString_hex buf @ c # d # cs)"
    by (simp add: toString_hex_def)
  then show ?case using Cons by (simp add: unhex_hexDigit[OF dd(1)] unhex_hexDigit[OF dd(2)])
qed

lemma hexDecode_odd: "hexDecode (toString_hex buf @ [c]) = map unat buf"
proof (induction buf)
  case Nil then show ?case by (simp add: toString_hex_def)
next
  case (Cons b buf)
  have dd: "unat b div 16 < 16" "unat b mod 16 < 16" using unat8_lt[of b] by simp_all
  have "toString_hex (b # buf) @ [c] =
        hexDigit (unat b div 16) # hexDigit (unat b mod 16) # (toString_hex buf @ [c])"
    by (simp add: toString_hex_def)
  then show ?case using Cons by (simp add: unhex_hexDigit[OF dd(1)] unhex_hexDigit[OF dd(2)])
qed

text \<open>
  Claim C5, as amended. \<open>decode\<close> returns a string for every input under each of the
  four encodings. Under \<open>hex\<close> only the low byte of every character is looked at: a
  character is a hexadecimal digit when its low byte is that of \<open>0-9\<close>, \<open>A-F\<close> or \<open>a-f\<close>,
  and two inputs with the same low bytes decode to the same string. Input that is no
  hexadecimal text is decoded up to the first pair of characters that is not two
  hexadecimal digits in this reading, and a single trailing character is dropped. Only an
  encoding outside the four makes \<open>decode\<close> (and \<open>encode\<close>) throw, an \<open>Error\<close> with the
  message \<open>Unknown encoding type: \<close> followed by the encoding.
\<close>

theorem decode_never_fails_on_known_kinds:
  "(encoding \<in> {str ''plain'', str ''base64'', str ''hex'', str ''rot13''} \<longrightarrow>
      (\<exists>r. decode v encoding = Inr r)) \<and>
   (encoding \<notin> {str ''plain'', str ''base64'', str ''hex'', str ''rot13''} \<longrightarrow>
      decode v encoding = Inl (Error (str ''Unknown encoding type: '' @ encoding)) \<and>
      encode v encoding = Inl (Error (str ''Unknown encoding type: '' @ encoding))) \<and>
   (isWellFormed v \<and> (unhex c = None \<or> unhex d = None) \<longrightarrow>
      decode (encodeHex v @ c # d # cs) (str ''hex'') = Inr v) \<and>
   (isWellFormed v \<longrightarrow> decode (encodeHex v @ [c]) (str ''hex'') = Inr v) \<and>
   (map (\<lambda>u. unat u mod 256) s = map (\<lambda>u. unat u mod 256) t \<longrightarrow>
      decode s (str ''hex'') = decode t (str ''hex'')) \<and>
   (unhex c = None \<longleftrightarrow> unat c mod 256 \<notin> {48..57} \<union> {65..70} \<union> {97..102})"
proof -
  have hex: "decode x (str ''hex'') = Inr (decodeHex x)" for x
    using str_distinct by (simp add: decode_def)
  have j: "decodeHex (encodeHex v @ c # d # cs) = v"
    if "isWellFormed v" "unhex c = None \<or> unhex d = None"
    using that
    by (simp add: decodeHex_def encodeHex_def Buffer_from_hex_def hexDecode_junk map_idI
          toString_Buffer_from)
  have k: "decodeHex (encodeHex v @ [c]) = v" if "isWellFormed v"
    using that
    by (simp add: decodeHex_def encodeHex_def Buffer_from_hex_def hexDecode_odd map_idI
          toString_Buffer_from)
  have l: "decode s (str ''hex'') = decode t (str ''hex'')"
    if "map (\<lambda>u. unat u mod 256) s = map (\<lambda>u. unat u mod 256) t"
    using hexDecode_low_bytes[OF that] by (simp add: hex decodeHex_def Buffer_from_hex_def)
  have m: "unhex c = None \<longleftrightarrow> unat c mod 256 \<notin> {48..57} \<union> {65..70} \<union> {97..102}"
    by (auto simp: unhex_def Let_def)
  have a: "encoding \<in> {str ''plain'', str ''base64'', str ''hex'', str ''rot13''} \<longrightarrow>
      (\<exists>r. decode v encoding = Inr r)"
    by (auto simp: decode_def)
  have b: "encoding \<notin> {str ''plain'', str ''base64'', str ''hex'', str ''rot13''} \<longrightarrow>
      decode v encoding = Inl (Error (str ''Unknown encoding type: '' @ encoding)) \<and>
      encode v encoding = Inl (Error (str ''Unknown encoding type: '' @ encoding))"
    by (auto simp: decode_def encode_def)
  show ?thesis using a b j k l m unfolding hex by blast
qed

text \<open>
  The claim as stated fails at \<open>zz\<close> under \<open>hex\<close>, which decodes to the empty string, and
  at \<open>1ag123\<close>, which decodes to the one character with code 0x1A.
\<close>

theorem decode_malformed_hex_returns:
  "decode (str ''zz'') (str ''hex'') = Inr [] \<and>
   decode (str ''1ag123'') (str ''hex'') = Inr [0x1A]"
  using str_distinct
  by (simp add: decode_def decodeHex_def Buffer_from_hex_def unhex_def toString_utf8_def
        utf16Units_def str_def)

theorem decode_never_fails_on_known_kinds_witness:
  "str ''hex'' \<in> {str ''plain'', str ''base64'', str ''hex'', str ''rot13''} \<and>
   str ''gzip'' \<notin> {str ''plain'', str ''base64'', str ''hex'', str ''rot13''} \<and>
   isWellFormed (str ''42'') \<and> unhex 122 = None \<and>
   encodeHex (str ''42'') = str ''3432'' \<and>
   decode (str ''3432zz99'') (str ''hex'') = Inr (str ''42'') \<and>
   decode (str ''3432'') (str ''gzip'') = Inl (Error (str ''Unknown encoding type: gzip'')) \<and>
   map (\<lambda>u. unat u mod 256) (str ''3432'' @ [0x134, 0x132]) =
     map (\<lambda>u. unat u mod 256) (str ''343242'') \<and>
   decode (str ''3432'' @ [0x134, 0x132]) (str ''hex'') = Inr (str ''42B'')"
proof -
  have h1: "str ''hex'' \<in> {str ''plain'', str ''base64'', str ''hex'', str ''rot13''}" by simp
  have h2: "str ''gzip'' \<notin> {str ''plain'', str ''base64'', str ''hex'', str ''rot13''}"
    by (simp add: str_def)
  have h3: "isWellFormed (str ''42'')" by (simp add: isWellFormed_def str_def isHigh_def isLow_def)
  have h4: "unhex 122 = None" by (simp add: unhex_def)
  have e: "encodeHex (str ''42'') = str ''3432''"
    by (simp add: encodeHex_def Buffer_from_def utf8Encode_def isHigh_def isLow_def
          utf8Bytes_def toString_hex_def hexDigit_def str_def)
  have "decode (encodeHex (str ''42'') @ 122 # 122 # str ''99'') (str ''hex'') = Inr (str ''42'')"
    using decode_never_fails_on_known_kinds
            [of "str ''hex''" "str ''42''" 122 122 "str ''99''" "[]" "[]"]
      h3 h4 by blast
  then have c1: "decode (str ''3432zz99'') (str ''hex'') = Inr (str ''42'')"
    unfolding e by (simp add: str_def)
  have "decode (str ''3432'') (str ''gzip'') =
          Inl (Error (str ''Unknown encoding type: '' @ str ''gzip''))"
    using decode_never_fails_on_known_kinds
            [of "str ''gzip''" "str ''3432''" 122 122 "[]" "[]" "[]"] h2
    by blast
  then have c2: "decode (str ''3432'') (str ''gzip'') = Inl (Error (str ''Unknown encoding type: gzip''))"
    by (simp add: str_def)
  have h5: "map (\<lambda>u. unat u mod 256) (str ''3432'' @ [0x134, 0x132]) =
            map (\<lambda>u. unat u mod 256) (str ''343242'')"
    by (simp add: str_def)
  have "decode (str ''3432'' @ [0x134, 0x132]) (str ''hex'') = decode (str ''343242'') (str ''hex'')"
    using decode_never_fails_on_known_kinds
            [of "str ''hex''" "[]" 122 122 "[]" "str ''3432'' @ [0x134, 0x132]" "str ''343242''"]
      h5 by blast
  also have "\<dots> = Inr (str ''42B'')"
    using str_distinct
    by (simp add: decode_def decodeHex_def Buffer_from_hex_def unhex_def toString_utf8_def
          utf16Units_def str_def)
  finally have c3: "decode (str ''3432'' @ [0x134, 0x132]) (str ''hex'') = Inr (str ''42B'')" .
  show ?thesis using h1 h2 h3 h4 e c1 c2 h5 c3 by blast
qed

section \<open>Comparison of strings\<close>

lemma safeCompare_iff:
  "safeCompare a b \<longleftrightarrow> length a = length b \<and> Buffer_from a = Buffer_from b"
  by (auto simp: safeCompare_def timingSafeEqual_def)

lemma safeCompare_wellFormed:
  "isWellFormed a \<Longrightarrow> isWellFormed b \<Longrightarrow> safeCompare a b \<longleftrightarrow> a = b"
  using Buffer_from_inj by (auto simp: safeCompare_iff)

text \<open>
  Claim C9. \<open>safeCompare\<close> never throws: the exception of \<open>timingSafeEqual\<close> is caught.
  But it does not return \<open>true\<close> only for identical strings: it compares the UTF-8
  encodings, and two different unpaired surrogates have the same one. Here the code is
  evaluated at the strings \<open>"\uD800"\<close> and \<open>"\uD801"\<close>.
\<close>

theorem safeCompare_unpaired_surrogates:
  "safeCompare [0xD800] [0xD801] = True \<and> [0xD800 :: 16 word] \<noteq> [0xD801] \<and>
   Buffer_from [0xD800] = [0xEF, 0xBF, 0xBD] \<and> Buffer_from [0xD801] = [0xEF, 0xBF, 0xBD]"
  by (simp add: safeCompare_iff Buffer_from_def utf8Encode_def isHigh_def isLow_def utf8Bytes_def)

section \<open>Random integers\<close>

lemma ceilLog256_le: "n \<le> 256 ^ ceilLog256 n"
proof (induction n rule: ceilLog256.induct)
  case (1 n)
  show ?case
  proof (cases "n \<le> 1")
    case True then show ?thesis by (subst ceilLog256.simps) simp
  next
    case False
    let ?m = "(n + 255) div 256"
    have ih: "?m \<le> 256 ^ ceilLog256 ?m" using 1 False by simp
    have "n \<le> 256 * ?m" by simp
    also have "\<dots> \<le> 256 * 256 ^ ceilLog256 ?m" using ih by simp
    finally show ?thesis using False by (subst ceilLog256.simps) simp
  qed
qed

lemma ceilLog256_pos: "1 < n \<Longrightarrow> 0 < ceilLog256 n"
  by (subst ceilLog256.simps) simp

lemma ceilLog256_gt: "1 < n \<Longrightarrow> 256 ^ (ceilLog256 n - 1) < n"
proof (induction n rule: ceilLog256.induct)
  case (1 n)
  let ?m = "(n + 255) div 256"
  have k: "ceilLog256 n = Suc (ceilLog256 ?m)" using 1(2) by (subst ceilLog256.simps) simp
  show ?case
  proof (cases "?m \<le> 1")
    case True
    then have "ceilLog256 ?m = 0" by (subst ceilLog256.simps) simp
    then show ?thesis using 1(2) k by simp
  next
    case False
    then have ih: "256 ^ (ceilLog256 ?m - 1) < ?m" using 1 by simp
    have p: "0 < ceilLog256 ?m" using False by (simp add: ceilLog256_pos)
    have "256 * (256 ^ (ceilLog256 ?m - 1) + 1) \<le> 256 * ?m" using ih by simp
    also have "\<dots> \<le> n + 255" by simp
    finally have "256 * 256 ^ (ceilLog256 ?m - 1) < n" by simp
    moreover have "256 * 256 ^ (ceilLog256 ?m - 1) = (256::nat) ^ ceilLog256 ?m"
      using p by (cases "ceilLog256 ?m") simp_all
    ultimately show ?thesis using k by simp
  qed
qed

lemma ceilLog256_log:
  assumes "1 \<le> n"
  shows "int (ceilLog256 n) = \<lceil>log 2 (real n) / 8\<rceil>"
proof (cases "n = 1")
  case True
  then show ?thesis by (subst ceilLog256.simps) simp
next
  case False
  then have n: "1 < n" using assms by simp
  let ?k = "ceilLog256 n"
  have kpos: "0 < ?k" using n by (rule ceilLog256_pos)
  have up: "real n \<le> 256 ^ ?k" using ceilLog256_le[of n] by (metis of_nat_le_iff of_nat_numeral of_nat_power)
  have lo: "256 ^ (?k - 1) < real n" using ceilLog256_gt[OF n] by (metis of_nat_less_iff of_nat_numeral of_nat_power)
  have p: "(256::real) ^ j = 2 powr (8 * real j)" for j
  proof -
    have "(256::real) = 2 ^ 8" by simp
    then have "(256::real) ^ j = 2 ^ (8 * j)" by (simp add: power_mult)
    also have "\<dots> = 2 powr real (8 * j)" using powr_realpow[of 2 "8 * j"] by simp
    finally show ?thesis by simp
  qed
  have rn: "0 < real n" using n by simp
  have "log 2 (real n) \<le> 8 * real ?k"
    using up rn unfolding p by (simp add: log_le_iff)
  then have le: "log 2 (real n) / 8 \<le> real ?k" by simp
  have "8 * real (?k - 1) < log 2 (real n)"
    using lo rn unfolding p by (simp add: less_log_iff)
  then have gt: "real ?k - 1 < log 2 (real n) / 8" using kpos by (simp add: of_nat_diff)
  have "\<lceil>log 2 (real n) / 8\<rceil> = int ?k"
    by (rule ceiling_unique) (use le gt in simp_all)
  then show ?thesis by simp
qed

lemma bitLength_bounds: "0 < n \<Longrightarrow> 2 ^ (bitLength n - 1) \<le> n \<and> n < 2 ^ bitLength n"
proof (induction n rule: bitLength.induct)
  case (1 n)
  show ?case
  proof (cases "n div 2 = 0")
    case True
    then have n1: "n = 1" using 1(2) by auto
    have "bitLength 0 = 0" by (subst bitLength.simps) simp
    then have "bitLength 1 = 1" by (subst bitLength.simps) simp
    then show ?thesis using n1 by simp
  next
    case False
    then have pos: "0 < n div 2" by simp
    have ih: "2 ^ (bitLength (n div 2) - 1) \<le> n div 2 \<and> n div 2 < 2 ^ bitLength (n div 2)"
      using 1(1) 1(2) pos by simp
    have b: "bitLength n = Suc (bitLength (n div 2))" using 1(2) by (subst bitLength.simps) simp
    have bp: "0 < bitLength (n div 2)" using pos by (subst bitLength.simps) simp
    have "2 * 2 ^ (bitLength (n div 2) - 1) \<le> 2 * (n div 2)" using ih by simp
    also have "\<dots> \<le> n" by simp
    finally have lo: "2 ^ bitLength (n div 2) \<le> n"
      using bp by (cases "bitLength (n div 2)") simp_all
    have "n < 2 * (n div 2) + 2" by presburger
    also have "\<dots> \<le> 2 * 2 ^ bitLength (n div 2)" using ih by simp
    finally have hi: "n < 2 ^ Suc (bitLength (n div 2))" by simp
    show ?thesis using lo hi b by simp
  qed
qed

lemma bitLength_pos: "0 < n \<Longrightarrow> 0 < bitLength n"
  by (subst bitLength.simps) simp

lemma bitLength_le: "0 < n \<Longrightarrow> n < 2 ^ k \<Longrightarrow> bitLength n \<le> k"
proof (rule ccontr)
  assume n: "0 < n" and lt: "n < 2 ^ k" and "\<not> bitLength n \<le> k"
  then have "k \<le> bitLength n - 1" by simp
  then have a: "(2::nat) ^ k \<le> 2 ^ (bitLength n - 1)" by (intro power_increasing) simp_all
  have b: "2 ^ (bitLength n - 1) \<le> n" using bitLength_bounds[OF n] by simp
  show False using a b lt by linarith
qed

lemma roundHalfEven_one: "roundHalfEven x 1 = x"
  by (simp add: roundHalfEven_def)

lemma roundHalfEven_cases:
  "roundHalfEven x d = x div d \<or> (roundHalfEven x d = x div d + 1 \<and> d \<le> 2 * (x mod d))"
  by (auto simp: roundHalfEven_def Let_def)

text \<open>The exponent of a quotient below \<open>2 ^ 53\<close> is at most 52, and the quotient scaled
  to 53 bits is at least \<open>2 ^ 52\<close>.\<close>

lemma binaryExponent_small:
  assumes "0 < a" "0 < b" "a < 2 ^ 53"
  shows "binaryExponent a b \<le> 52"
    and "b * 2 ^ 52 \<le> a * 2 ^ nat (52 - binaryExponent a b)"
proof -
  define la where "la = bitLength (nat a)"
  define lb where "lb = bitLength (nat b)"
  define d where "d = int la - int lb"
  have na: "0 < nat a" "nat a < 2 ^ 53" using assms by simp_all
  have la53: "la \<le> 53" unfolding la_def using na by (rule bitLength_le)
  have lb1: "1 \<le> lb" unfolding lb_def using bitLength_pos[of "nat b"] assms(2) by simp
  have d52: "d \<le> 52" unfolding d_def using la53 lb1 by simp
  have e: "binaryExponent a b =
      (if (if 0 \<le> d then b * 2 ^ nat d \<le> a else b \<le> a * 2 ^ nat (- d)) then d else d - 1)"
    by (simp add: binaryExponent_def la_def lb_def d_def Let_def)
  show "binaryExponent a b \<le> 52" using d52 unfolding e by simp
  have al: "2 ^ (la - 1) \<le> a"
  proof -
    have "2 ^ (la - 1) \<le> nat a" using bitLength_bounds[OF na(1)] by (simp add: la_def)
    then have "int (2 ^ (la - 1)) \<le> int (nat a)" by (simp only: of_nat_le_iff)
    then show ?thesis using assms(1) by simp
  qed
  have bu: "b < 2 ^ lb"
  proof -
    have "nat b < 2 ^ lb" using bitLength_bounds[of "nat b"] assms(2) by (simp add: lb_def)
    then have "int (nat b) < int (2 ^ lb)" by (simp only: of_nat_less_iff)
    then show ?thesis using assms(2) by simp
  qed
  have la1: "1 \<le> la" unfolding la_def using bitLength_pos[OF na(1)] by simp
  show "b * 2 ^ 52 \<le> a * 2 ^ nat (52 - binaryExponent a b)"
  proof (cases "if 0 \<le> d then b * 2 ^ nat d \<le> a else b \<le> a * 2 ^ nat (- d)")
    case True
    then have ed: "binaryExponent a b = d" unfolding e by simp
    show ?thesis
    proof (cases "0 \<le> d")
      case dn: True
      have le: "b * 2 ^ nat d \<le> a" using True dn by simp
      have "52 = nat d + nat (52 - d)" using dn d52 by simp
      then have "(2::int) ^ 52 = 2 ^ (nat d + nat (52 - d))" by (rule arg_cong)
      also have "\<dots> = 2 ^ nat d * 2 ^ nat (52 - d)" by (rule power_add)
      finally have "b * 2 ^ 52 = (b * 2 ^ nat d) * 2 ^ nat (52 - d)" by (simp only: mult.assoc)
      also have "\<dots> \<le> a * 2 ^ nat (52 - d)" using le by (intro mult_right_mono) simp_all
      finally show ?thesis unfolding ed .
    next
      case dn: False
      have le: "b \<le> a * 2 ^ nat (- d)" using True dn by simp
      have "nat (52 - d) = nat (- d) + 52" using dn by simp
      then have "(2::int) ^ nat (52 - d) = 2 ^ (nat (- d) + 52)" by (rule arg_cong)
      also have "\<dots> = 2 ^ nat (- d) * 2 ^ 52" by (rule power_add)
      finally have p: "(2::int) ^ nat (52 - d) = 2 ^ nat (- d) * 2 ^ 52" .
      have "b * 2 ^ 52 \<le> (a * 2 ^ nat (- d)) * 2 ^ 52" using le by (intro mult_right_mono) simp_all
      then show ?thesis unfolding ed p by (simp only: mult.assoc)
    qed
  next
    case False
    then have ed: "binaryExponent a b = d - 1" unfolding e by simp
    txt \<open>\<open>2 ^ (d - 1) \<le> a / b\<close> follows from the lengths alone.\<close>
    have "b * 2 ^ la \<le> 2 ^ lb * 2 ^ la" using bu by (intro mult_right_mono) simp_all
    also have "\<dots> = 2 * 2 ^ (la - 1) * 2 ^ lb" using la1 by (cases la) simp_all
    also have "\<dots> \<le> 2 * a * 2 ^ lb" using al by (intro mult_right_mono mult_left_mono) simp_all
    finally have key: "b * 2 ^ la \<le> a * 2 ^ (lb + 1)" by simp
    have "int la + nat (52 - (d - 1)) = 52 + int (lb + 1)" using d52 unfolding d_def by simp
    then have "la + nat (52 - (d - 1)) = 52 + (lb + 1)" by linarith
    then have "(2::int) ^ (la + nat (52 - (d - 1))) = 2 ^ (52 + (lb + 1))" by (rule arg_cong)
    then have p: "(2::int) ^ la * 2 ^ nat (52 - (d - 1)) = 2 ^ 52 * 2 ^ (lb + 1)"
      by (simp only: power_add)
    have "(b * 2 ^ 52) * 2 ^ (lb + 1) = b * (2 ^ 52 * 2 ^ (lb + 1))" by (simp only: mult.assoc)
    also have "\<dots> = b * (2 ^ la * 2 ^ nat (52 - (d - 1)))" by (simp only: p)
    also have "\<dots> = (b * 2 ^ la) * 2 ^ nat (52 - (d - 1))" by (simp only: mult.assoc)
    also have "\<dots> \<le> (a * 2 ^ (lb + 1)) * 2 ^ nat (52 - (d - 1))"
      using key by (intro mult_right_mono) simp_all
    also have "\<dots> = (a * 2 ^ nat (52 - (d - 1))) * 2 ^ (lb + 1)"
      by (simp only: mult.assoc mult.commute mult.left_commute)
    finally have "(b * 2 ^ 52) * 2 ^ (lb + 1) \<le> (a * 2 ^ nat (52 - (d - 1))) * 2 ^ (lb + 1)" .
    then have "b * 2 ^ 52 \<le> a * 2 ^ nat (52 - (d - 1))"
      by (rule mult_right_le_imp_le) simp
    then show ?thesis unfolding ed .
  qed
qed

lemma double_small: "\<bar>n\<bar> < 2 ^ 53 \<Longrightarrow> double n = n"
proof (cases "n = 0")
  case True
  then show ?thesis by (simp add: double_def nearestDouble_def mathFloor_def)
next
  case False
  assume lt: "\<bar>n\<bar> < 2 ^ 53"
  define k where "k = binaryExponent \<bar>n\<bar> 1 - 52"
  have pos: "0 < \<bar>n\<bar>" using False by simp
  have "binaryExponent \<bar>n\<bar> 1 \<le> 52" using pos _ lt by (rule binaryExponent_small(1)) simp
  then have k0: "k \<le> 0" by (simp add: k_def)
  have sg: "sgn n * \<bar>n\<bar> = n" by (simp add: mult_sgn_abs)
  show ?thesis
  proof (cases "k = 0")
    case True
    have "nearestDouble n 1 = (sgn n * \<bar>n\<bar>, 0)"
      using False True by (simp add: nearestDouble_def k_def[symmetric] Let_def roundHalfEven_one)
    then show ?thesis by (simp add: double_def mathFloor_def sg)
  next
    case nz: False
    then have kn: "k < 0" using k0 by simp
    have "nearestDouble n 1 = (sgn n * (\<bar>n\<bar> * 2 ^ nat (- k)), k)"
      using False kn by (simp add: nearestDouble_def k_def[symmetric] Let_def roundHalfEven_one)
    then have "double n = (n * 2 ^ nat (- k)) div 2 ^ nat (- k)"
      using kn sg by (simp add: double_def mathFloor_def mult.assoc[symmetric])
    then show ?thesis by simp
  qed
qed

lemma roundHalfEven_scaled:
  fixes a b K :: int
  assumes "0 \<le> a" "0 < b" "0 < K" "b < 2 * K"
  shows "roundHalfEven (a * K) b div K = a div b"
proof -
  define N where "N = a div b"
  define R where "R = a mod b"
  define x where "x = a * K"
  define m where "m = roundHalfEven x b"
  have a: "a = N * b + R" unfolding N_def R_def by simp
  have R: "0 \<le> R" "R < b" unfolding R_def using assms(2) by simp_all
  have xe: "x = N * K * b + R * K" unfolding x_def a by (simp add: algebra_simps)
  have xdm: "x = x div b * b + x mod b" by simp
  have xm: "0 \<le> x mod b" "x mod b < b" using assms(2) by simp_all
  have RK: "0 \<le> R * K" using R(1) assms(3) by simp
  have lo: "N * K \<le> x div b"
  proof (rule ccontr)
    assume "\<not> N * K \<le> x div b"
    then have "x div b + 1 \<le> N * K" by simp
    then have "(x div b + 1) * b \<le> N * K * b" using assms(2) by (intro mult_right_mono) simp_all
    then have "x div b * b + b \<le> N * K * b" by (simp add: algebra_simps)
    then show False using xdm xm xe RK by linarith
  qed
  have KbR: "K \<le> K * (b - R)"
  proof -
    have "K * 1 \<le> K * (b - R)" using R(2) assms(3) by (intro mult_left_mono) simp_all
    then show ?thesis by simp
  qed
  have xlt: "x < (N * K + K) * b"
  proof -
    have "R * K + K * (b - R) = K * b" by (simp add: algebra_simps)
    then have "R * K < K * b" using KbR assms(3) by linarith
    then show ?thesis unfolding xe by (simp add: algebra_simps)
  qed
  have hi0: "x div b < N * K + K"
  proof (rule ccontr)
    assume "\<not> x div b < N * K + K"
    then have "(N * K + K) * b \<le> x div b * b" using assms(2) by (intro mult_right_mono) simp_all
    then show False using xdm xm xlt by linarith
  qed
  have hi: "m < N * K + K"
  proof (rule ccontr)
    assume c: "\<not> m < N * K + K"
    have "m = x div b \<or> (m = x div b + 1 \<and> b \<le> 2 * (x mod b))"
      unfolding m_def by (rule roundHalfEven_cases)
    then have up: "m = x div b + 1" and half: "b \<le> 2 * (x mod b)" using c hi0 by auto
    have q: "x div b = N * K + K - 1" using up c hi0 by simp
    have "x mod b = x - (N * K + K - 1) * b" using xdm q by simp
    also have "\<dots> = b - K * (b - R)" unfolding xe by (simp add: algebra_simps)
    finally have "x mod b \<le> b - K" using KbR by simp
    then show False using half assms(4) by simp
  qed
  have ml: "N * K \<le> m"
  proof -
    have "m = x div b \<or> (m = x div b + 1 \<and> b \<le> 2 * (x mod b))"
      unfolding m_def by (rule roundHalfEven_cases)
    then show ?thesis using lo by auto
  qed
  have "m div K = N"
  proof (rule int_div_pos_eq)
    show "m = K * N + (m - N * K)" by simp
    show "0 \<le> m - N * K" using ml by simp
    show "m - N * K < K" using hi by simp
  qed
  then show ?thesis unfolding m_def x_def N_def .
qed

lemma floor_quotient:
  assumes "0 < b" "b \<le> a" "a < 2 ^ 53"
  shows "mathFloor (nearestDouble a b) = a div b"
proof -
  define e where "e = binaryExponent a b"
  define K :: int where "K = 2 ^ nat (52 - e)"
  have a0: "0 < a" using assms by simp
  have e52: "e \<le> 52" unfolding e_def using a0 assms(1,3) by (rule binaryExponent_small(1))
  have sc: "b * 2 ^ 52 \<le> a * K"
    unfolding K_def e_def using a0 assms(1,3) by (rule binaryExponent_small(2))
  have K0: "0 < K" unfolding K_def by simp
  have "a * K < 2 ^ 53 * K" using assms(3) K0 by (intro mult_strict_right_mono)
  then have "b * 2 ^ 52 < 2 ^ 53 * K" using sc by linarith
  then have "b * 2 ^ 52 < (2 * K) * 2 ^ 52" by simp
  then have b2K: "b < 2 * K" by (rule mult_right_less_imp_less) simp
  have ab: "\<bar>a\<bar> = a" "\<bar>b\<bar> = b" "sgn a = 1" "sgn b = 1" using a0 assms(1) by simp_all
  have "mathFloor (nearestDouble a b) = roundHalfEven (a * K) b div K"
  proof (cases "e = 52")
    case True
    then have K1: "K = 1" by (simp add: K_def)
    have "nearestDouble a b = (roundHalfEven a b, 0)"
      using a0 True by (simp add: nearestDouble_def ab e_def[symmetric] Let_def)
    then show ?thesis by (simp add: mathFloor_def K1)
  next
    case False
    then have k: "e - 52 < 0" using e52 by simp
    have nk: "nat (- (e - 52)) = nat (52 - e)" by simp
    have "nearestDouble a b = (roundHalfEven (a * K) b, e - 52)"
      using a0 k by (simp add: nearestDouble_def ab e_def[symmetric] Let_def K_def nk)
    then show ?thesis using k by (simp add: mathFloor_def K_def nk)
  qed
  also have "\<dots> = a div b"
    using a0 assms(1) K0 b2K by (intro roundHalfEven_scaled) simp_all
  finally show ?thesis .
qed

lemma uint8_bounds: "0 \<le> uint (b :: 8 word)" "uint (b :: 8 word) < 256"
  using uint_lt2p[of b] by simp_all

lemma power256_le: "k \<le> 6 \<Longrightarrow> (256::int) ^ k \<le> 2 ^ 48"
proof -
  assume "k \<le> 6"
  then have "(256::int) ^ k \<le> 256 ^ 6" by (intro power_increasing) simp_all
  then show ?thesis by simp
qed

text \<open>Up to six bytes nothing is rounded.\<close>

lemma reduce_gen:
  "0 \<le> a \<Longrightarrow> a < 256 ^ k \<Longrightarrow> k + length bs \<le> 6 \<Longrightarrow>
   foldl (\<lambda>acc (byte, i). double (acc + double (uint byte * 256 ^ i))) a
     (zip bs [k..<k + length bs]) = a + 256 ^ k * littleEndian bs"
proof (induction bs arbitrary: a k)
  case Nil show ?case by simp
next
  case (Cons b bs)
  define t where "t = uint b * 256 ^ k"
  have k5: "Suc k \<le> 6" using Cons.prems(3) by simp
  have p: "(256::int) ^ Suc k \<le> 2 ^ 48" using k5 by (rule power256_le)
  have t0: "0 \<le> t" unfolding t_def using uint8_bounds(1)[of b] by simp
  have "t \<le> 255 * 256 ^ k"
    unfolding t_def using uint8_bounds(2)[of b] by (intro mult_right_mono) simp_all
  then have at: "a + t < 256 ^ Suc k" using Cons.prems(2) by simp
  have "\<bar>t\<bar> < 2 ^ 53" using t0 at Cons.prems(1) p by simp
  then have dt: "double t = t" by (rule double_small)
  have "\<bar>a + t\<bar> < 2 ^ 53" using t0 at Cons.prems(1) p by simp
  then have dat: "double (a + t) = a + t" by (rule double_small)
  have "[k..<k + length (b # bs)] = k # [Suc k..<k + length (b # bs)]"
    by (rule upt_conv_Cons) simp
  then have u: "[k..<k + length (b # bs)] = k # [Suc k..<Suc k + length bs]"
    by simp
  have ih: "foldl (\<lambda>acc (byte, i). double (acc + double (uint byte * 256 ^ i))) (a + t)
     (zip bs [Suc k..<Suc k + length bs]) = (a + t) + 256 ^ Suc k * littleEndian bs"
    using Cons.prems(1,3) t0 at by (intro Cons.IH) simp_all
  show ?case unfolding u
    by (simp only: zip_Cons_Cons foldl_Cons prod.case t_def[symmetric] dt dat ih)
       (simp add: t_def algebra_simps)
qed

lemma reduceBytes_littleEndian: "length bs \<le> 6 \<Longrightarrow> reduceBytes bs = littleEndian bs"
  using reduce_gen[of 0 0 bs] by (simp add: reduceBytes_def)

lemma littleEndian_bounds: "0 \<le> littleEndian bs \<and> littleEndian bs < 256 ^ length bs"
proof (induction bs)
  case Nil show ?case by simp
next
  case (Cons b bs)
  have "uint b + 256 * littleEndian bs \<le> 255 + 256 * (256 ^ length bs - 1)"
    using Cons uint8_bounds[of b] by simp
  then show ?case using Cons uint8_bounds[of b] by simp
qed

lemma littleEndian_inj:
  "length bs = length cs \<Longrightarrow> littleEndian bs = littleEndian cs \<Longrightarrow> bs = cs"
proof (induction bs cs rule: list_induct2)
  case Nil show ?case by simp
next
  case (Cons b bs c cs)
  have e: "uint b + 256 * littleEndian bs = uint c + 256 * littleEndian cs" using Cons.prems by simp
  have "(uint b + 256 * littleEndian bs) mod 256 = uint b"
       "(uint c + 256 * littleEndian cs) mod 256 = uint c"
    using uint8_bounds[of b] uint8_bounds[of c] by simp_all
  then have bc: "uint b = uint c" using e by simp
  then have "littleEndian bs = littleEndian cs" using e by simp
  then show ?case using Cons.IH bc by (simp add: word_uint_eqI)
qed

lemma card_buffers: "card {bs :: buffer. length bs = n} = 256 ^ n"
proof -
  have "card {bs :: buffer. set bs \<subseteq> UNIV \<and> length bs = n} = card (UNIV :: 8 word set) ^ n"
    by (rule card_lists_length_eq) simp
  then show ?thesis by (simp add: card_word)
qed

lemma finite_buffers: "finite {bs :: buffer. length bs = n}"
  using finite_lists_length_eq[of "UNIV :: 8 word set" n] by simp

lemma reduceBytes_bij:
  assumes "n \<le> 6"
  shows "bij_betw reduceBytes {bs. length bs = n} {0..<256 ^ n}"
proof -
  let ?A = "{bs :: buffer. length bs = n}" and ?B = "{0..<256 ^ n :: int}"
  have inj: "inj_on reduceBytes ?A"
    using assms by (intro inj_onI) (simp add: reduceBytes_littleEndian littleEndian_inj)
  have sub: "reduceBytes ` ?A \<subseteq> ?B"
    using littleEndian_bounds assms by (auto simp: reduceBytes_littleEndian)
  have "card (reduceBytes ` ?A) = card ?A" using inj by (rule card_image)
  also have "\<dots> = 256 ^ n" by (rule card_buffers)
  also have "\<dots> = card ?B" by simp
  finally have "reduceBytes ` ?A = ?B" using sub by (simp add: card_subset_eq)
  then show ?thesis using inj by (simp add: bij_betw_def)
qed

lemma residue_class_card:
  fixes r q j :: int
  assumes "0 < r" "0 \<le> q" "0 \<le> j" "j < r"
  shows "card {c. 0 \<le> c \<and> c \<le> q * r - 1 \<and> c mod r = j} = nat q"
proof -
  have "{c. 0 \<le> c \<and> c \<le> q * r - 1 \<and> c mod r = j} = (\<lambda>k. k * r + j) ` {0..<q}"
  proof (rule set_eqI, rule iffI)
    fix c assume "c \<in> {c. 0 \<le> c \<and> c \<le> q * r - 1 \<and> c mod r = j}"
    then have c: "0 \<le> c" "c < q * r" "c mod r = j" by auto
    have "c = (c div r) * r + j" using c(3) by (metis div_mult_mod_eq)
    moreover have "0 \<le> c div r" using c(1) assms(1) by (simp add: pos_imp_zdiv_nonneg_iff)
    moreover have "c div r < q"
    proof (rule ccontr)
      assume "\<not> c div r < q"
      then have "q * r \<le> c div r * r" using assms(1) by (simp add: mult_right_mono)
      moreover have "c div r * r + c mod r = c" by simp
      moreover have "0 \<le> c mod r" using assms(1) by simp
      ultimately show False using c(2) by linarith
    qed
    ultimately show "c \<in> (\<lambda>k. k * r + j) ` {0..<q}" by auto
  next
    fix c assume "c \<in> (\<lambda>k. k * r + j) ` {0..<q}"
    then obtain k where k: "0 \<le> k" "k < q" "c = k * r + j" by auto
    have "k * r + j < (k + 1) * r" using assms by (simp add: algebra_simps)
    also have "\<dots> \<le> q * r" using k(2) assms(1) by (simp add: mult_right_mono)
    finally have "c \<le> q * r - 1" using k(3) by simp
    moreover have "0 \<le> c" using k assms by simp
    moreover have "c mod r = j" using k(3) assms by simp
    ultimately show "c \<in> {c. 0 \<le> c \<and> c \<le> q * r - 1 \<and> c mod r = j}" by simp
  qed
  moreover have "inj_on (\<lambda>k. k * r + j) {0..<q}" using assms(1) by (auto simp: inj_on_def)
  ultimately show ?thesis by (simp add: card_image)
qed

lemma reduceBytes_bounds:
  assumes "length bs \<le> 6"
  shows "0 \<le> reduceBytes bs" "reduceBytes bs < 256 ^ length bs"
  using littleEndian_bounds[of bs] assms by (simp_all add: reduceBytes_littleEndian)

lemma sample_accept:
  "0 < n \<Longrightarrow> length chunk = n \<Longrightarrow> reduceBytes chunk \<le> maxValid \<Longrightarrow>
   sample n maxValid (chunk @ rest) = Inr (reduceBytes chunk, rest)"
  by (subst sample.simps) simp

lemma sample_reject:
  "0 < n \<Longrightarrow> length chunk = n \<Longrightarrow> reduceBytes chunk > maxValid \<Longrightarrow>
   sample n maxValid (chunk @ rest) = sample n maxValid rest"
  by (subst sample.simps) simp

lemma sample_rejections:
  assumes "0 < n" and "\<forall>c\<in>set rejected. length c = n \<and> reduceBytes c > maxValid"
      and "length chunk = n" and "reduceBytes chunk \<le> maxValid"
  shows "sample n maxValid (concat rejected @ chunk @ rest) = Inr (reduceBytes chunk, rest)"
  using assms(2)
proof (induction rejected)
  case Nil
  show ?case using sample_accept[OF assms(1,3,4)] by simp
next
  case (Cons c cs)
  have "sample n maxValid (c @ (concat cs @ chunk @ rest)) = sample n maxValid (concat cs @ chunk @ rest)"
    using Cons.prems by (intro sample_reject[OF assms(1)]) simp_all
  then show ?case using Cons by simp
qed

lemma sample_result:
  "sample n maxValid tape = Inr (v, tape') \<Longrightarrow> n \<le> 6 \<Longrightarrow> 0 \<le> v \<and> v \<le> maxValid"
proof (induction n maxValid tape rule: sample.induct)
  case (1 n maxValid tape)
  show ?case
  proof (cases "length tape < n")
    case True
    then show ?thesis using 1(2) by (subst (asm) sample.simps) simp
  next
    case False
    show ?thesis
    proof (cases "reduceBytes (take n tape) > maxValid")
      case True
      have n: "n \<noteq> 0"
        using 1(2) True False by (subst (asm) sample.simps) (auto simp: Let_def split: if_splits)
      have "sample n maxValid (drop n tape) = Inr (v, tape')"
        using 1(2) True False n by (subst (asm) sample.simps) (simp add: Let_def)
      then show ?thesis using 1(1)[OF False refl True n] 1(3) by simp
    next
      case nr: False
      have "v = reduceBytes (take n tape)"
        using 1(2) False nr by (subst (asm) sample.simps) (simp add: Let_def)
      moreover have "length (take n tape) \<le> 6" using 1(3) by simp
      ultimately show ?thesis using nr reduceBytes_bounds(1)[of "take n tape"] by simp
    qed
  qed
qed

lemma sample_error: "sample n maxValid tape = Inl e \<Longrightarrow> e = NoEntropy"
proof (induction n maxValid tape rule: sample.induct)
  case (1 n maxValid tape)
  show ?case
  proof (cases "length tape < n")
    case True
    then show ?thesis using 1(2) by (subst (asm) sample.simps) simp
  next
    case False
    show ?thesis
    proof (cases "reduceBytes (take n tape) > maxValid")
      case True
      show ?thesis
      proof (cases "n = 0")
        case z: True
        then show ?thesis using 1(2) True False by (subst (asm) sample.simps) (simp add: Let_def)
      next
        case n: False
        have "sample n maxValid (drop n tape) = Inl e"
          using 1(2) True False n by (subst (asm) sample.simps) (simp add: Let_def)
        then show ?thesis using 1(1)[OF False refl True n] by simp
      qed
    next
      case nr: False
      then show ?thesis using 1(2) False by (subst (asm) sample.simps) (simp add: Let_def)
    qed
  qed
qed

lemma bytesNeeded_pos:
  assumes "1 \<le> r"
  shows "bytesNeeded r = Some (max 1 (ceilLog256 (nat r)))"
    and "r \<le> 256 ^ max 1 (ceilLog256 (nat r))"
proof -
  show "bytesNeeded r = Some (max 1 (ceilLog256 (nat r)))"
    using assms by (auto simp: bytesNeeded_def max_def)
  have "nat r \<le> 256 ^ ceilLog256 (nat r)" by (rule ceilLog256_le)
  also have "\<dots> \<le> 256 ^ max 1 (ceilLog256 (nat r))" by (rule power_increasing) simp_all
  finally have "int (nat r) \<le> int (256 ^ max 1 (ceilLog256 (nat r)))" by (simp only: of_nat_le_iff)
  then show "r \<le> 256 ^ max 1 (ceilLog256 (nat r))" using assms by simp
qed

lemma jsRem_nonneg: "0 \<le> a \<Longrightarrow> 0 < b \<Longrightarrow> jsRem a b = a mod b"
  by (cases "a = 0") (simp_all add: jsRem_def)

lemma card_bij_filter:
  assumes "bij_betw f A B"
  shows "card {a \<in> A. P (f a)} = card {b \<in> B. P b}"
proof -
  have inj: "inj_on f {a \<in> A. P (f a)}"
    using assms by (auto simp: bij_betw_def inj_on_def)
  have "f ` {a \<in> A. P (f a)} = {b \<in> B. P b}"
    using assms by (auto simp: bij_betw_def image_iff)
  then show ?thesis using card_image[OF inj] by simp
qed

lemma ceilLog256_small: "r \<le> 256 ^ 6 \<Longrightarrow> max 1 (ceilLog256 r) \<le> 6"
proof (cases "1 < r")
  case False
  then have "ceilLog256 r = 0" by (subst ceilLog256.simps) simp
  then show ?thesis by simp
next
  case True
  assume r: "r \<le> 256 ^ 6"
  have "256 ^ (ceilLog256 r - 1) < r" using True by (rule ceilLog256_gt)
  then have "(256::nat) ^ (ceilLog256 r - 1) < 256 ^ 6" using r by simp
  then have "ceilLog256 r - 1 < 6" by (simp only: power_strict_increasing_iff) 
  then show ?thesis by simp
qed

text \<open>The values of \<open>randomInt(0, 2 ^ 48)\<close>, computed.\<close>

lemmas double_eval = double_def nearestDouble_def binaryExponent_def bitLength.simps
  roundHalfEven_def mathFloor_def Let_def

lemma range_2_48: "double (2 ^ 48 - 0) = 2 ^ 48" "double (2 ^ 48 + 1) = 2 ^ 48 + 1"
  by (simp_all add: double_small)

lemma quotient_2_48: "mathFloor (nearestDouble (256 ^ 7) (2 ^ 48 + 1)) = 255"
  by (simp add: double_eval)

lemma product_2_48: "double (255 * (2 ^ 48 + 1)) = 255 * 2 ^ 48 + 256"
  by (simp add: double_eval)

lemma maxValid_2_48: "double (255 * 2 ^ 48 + 256 - 1) = 255 * 2 ^ 48 + 256"
  by (simp add: double_eval)

lemma candidate_above_maxValid: "reduceBytes [0, 1, 0, 0, 0, 0, 255] = 255 * 2 ^ 48 + 256"
  by (simp add: reduceBytes_def double_eval)

lemma candidate_rounded: "reduceBytes [1, 0, 0, 0, 0, 0, 32] = 2 ^ 53"
  by (simp add: reduceBytes_def double_eval)

lemma candidate_2_53: "reduceBytes [0, 0, 0, 0, 0, 0, 32] = 2 ^ 53"
  by (simp add: reduceBytes_def double_eval)

text \<open>
  Claim C8, as stated, does not hold: the source computes in doubles. For
  \<open>randomInt(0, 2 ^ 48)\<close> the range is \<open>2 ^ 48 + 1\<close>, seven bytes are drawn, and the products
  and sums of seven bytes leave the integers that a double holds exactly. The candidate
  of the bytes \<open>0, 1, 0, 0, 0, 0, 255\<close> is above \<open>floor(256 ^ 7 / range) * range - 1\<close> and is
  accepted, because \<open>maxValid\<close> itself is rounded upwards; and the bytes
  \<open>1, 0, 0, 0, 0, 0, 32\<close> and \<open>0, 0, 0, 0, 0, 0, 32\<close> are two strings of bytes with the same
  candidate, \<open>2 ^ 53\<close>, and the same result.
\<close>

theorem randomInt_rounds_above_2_48:
  "bytesNeeded (2 ^ 48 - 0 + 1) = Some 7 \<and>
   (256 ^ 7 div (2 ^ 48 - 0 + 1)) * (2 ^ 48 - 0 + 1) - 1 < reduceBytes [0, 1, 0, 0, 0, 0, 255] \<and>
   randomInt 0 (2 ^ 48) [0, 1, 0, 0, 0, 0, 255] = Inr (1, []) \<and>
   reduceBytes [1, 0, 0, 0, 0, 0, 32] = 2 ^ 53 \<and>
   reduceBytes [0, 0, 0, 0, 0, 0, 32] = 2 ^ 53 \<and>
   randomInt 0 (2 ^ 48) [1, 0, 0, 0, 0, 0, 32] = Inr (2 ^ 48 - 31, []) \<and>
   randomInt 0 (2 ^ 48) [0, 0, 0, 0, 0, 0, 32] = Inr (2 ^ 48 - 31, [])"
proof -
  have bn: "bytesNeeded (2 ^ 48 - 0 + 1) = Some 7"
    by (simp add: bytesNeeded_def ceilLog256.simps)
  have mv: "double (double (mathFloor (nearestDouble (256 ^ 7) (2 ^ 48 + 1)) * (2 ^ 48 + 1)) - 1) =
            255 * 2 ^ 48 + 256"
    unfolding quotient_2_48 product_2_48 using maxValid_2_48 by simp
  have ri: "randomInt 0 (2 ^ 48) t =
      andThen (sample 7 (255 * 2 ^ 48 + 256) t)
        (\<lambda>(randomValue, tape'). Inr (double (0 + jsRem randomValue (2 ^ 48 + 1)), tape'))" for t
    using bn mv range_2_48 by (simp add: randomInt_def Let_def)
  have s1: "sample 7 (255 * 2 ^ 48 + 256) ([0, 1, 0, 0, 0, 0, 255] @ []) =
            Inr (reduceBytes [0, 1, 0, 0, 0, 0, 255], [])"
    by (rule sample_accept) (simp_all add: candidate_above_maxValid)
  have s2: "sample 7 (255 * 2 ^ 48 + 256) ([1, 0, 0, 0, 0, 0, 32] @ []) =
            Inr (reduceBytes [1, 0, 0, 0, 0, 0, 32], [])"
    by (rule sample_accept) (simp_all add: candidate_rounded)
  have s3: "sample 7 (255 * 2 ^ 48 + 256) ([0, 0, 0, 0, 0, 0, 32] @ []) =
            Inr (reduceBytes [0, 0, 0, 0, 0, 0, 32], [])"
    by (rule sample_accept) (simp_all add: candidate_2_53)
  have c1: "randomInt 0 (2 ^ 48) [0, 1, 0, 0, 0, 0, 255] = Inr (1, [])"
    unfolding ri using s1 by (simp add: andThen_def candidate_above_maxValid jsRem_def double_small)
  have c2: "randomInt 0 (2 ^ 48) [1, 0, 0, 0, 0, 0, 32] = Inr (2 ^ 48 - 31, [])"
    unfolding ri using s2 by (simp add: andThen_def candidate_rounded jsRem_def double_small)
  have c3: "randomInt 0 (2 ^ 48) [0, 0, 0, 0, 0, 0, 32] = Inr (2 ^ 48 - 31, [])"
    unfolding ri using s3 by (simp add: andThen_def candidate_2_53 jsRem_def double_small)
  have a: "(256 ^ 7 div (2 ^ 48 - 0 + 1)) * (2 ^ 48 - 0 + 1) - 1 <
           reduceBytes [0, 1, 0, 0, 0, 0, 255]"
    unfolding candidate_above_maxValid by simp
  show ?thesis using bn a c1 candidate_rounded candidate_2_53 c2 c3 by blast
qed

text \<open>
  Claim C8, as amended. For integers \<open>min \<le> max\<close> of absolute value below \<open>2 ^ 53\<close> with
  \<open>range = max - min + 1\<close> at most \<open>2 ^ 48\<close>, where at most six bytes are drawn and no
  operation rounds, with \<open>bytesNeeded\<close> the number \<open>Math.ceil(Math.log2(range) / 8) || 1\<close>
  of bytes of one candidate and \<open>maxValid = floor(256 ^ bytesNeeded / range) * range - 1\<close>:
  a result of \<open>randomInt\<close> lies in \<open>[min, max]\<close>; a candidate above \<open>maxValid\<close> is rejected
  and the next bytes are drawn, and the first candidate that is not above \<open>maxValid\<close> ends
  the loop with \<open>min + candidate % range\<close>; more than half of the candidates are accepted,
  and the loop fails only by using up the tape of random bytes; and every value of
  \<open>[min, max]\<close> is the result of the same number, \<open>floor(256 ^ bytesNeeded / range)\<close>, of
  accepted byte strings.
\<close>

theorem randomInt_uniform:
  assumes "min' \<le> max'"
      and "- (2 ^ 53) < min'" and "max' < 2 ^ 53"
      and "max' - min' + 1 \<le> 2 ^ 48"
      and "n = max 1 (ceilLog256 (nat (max' - min' + 1)))"
      and "maxValid = (256 ^ n div (max' - min' + 1)) * (max' - min' + 1) - 1"
  shows "bytesNeeded (max' - min' + 1) = Some n \<and>
         int n = max 1 \<lceil>log 2 (real_of_int (max' - min' + 1)) / 8\<rceil> \<and>
         0 \<le> maxValid \<and> maxValid < 256 ^ n \<and> 256 ^ n < 2 * (maxValid + 1) \<and>
         (randomInt min' max' tape = Inr (v, tape') \<longrightarrow> min' \<le> v \<and> v \<le> max') \<and>
         (randomInt min' max' tape = Inl e \<longrightarrow> e = NoEntropy) \<and>
         ((\<forall>c\<in>set rejected. length c = n \<and> reduceBytes c > maxValid) \<and>
          length chunk = n \<and> reduceBytes chunk \<le> maxValid \<longrightarrow>
            randomInt min' max' (concat rejected @ chunk @ rest) =
              Inr (min' + reduceBytes chunk mod (max' - min' + 1), rest)) \<and>
         (min' \<le> w \<and> w \<le> max' \<longrightarrow>
            card {bs. length bs = n \<and> reduceBytes bs \<le> maxValid \<and>
                      min' + jsRem (reduceBytes bs) (max' - min' + 1) = w} =
              nat (256 ^ n div (max' - min' + 1)))"
proof -
  define r where "r = max' - min' + 1"
  define q :: int where "q = 256 ^ n div r"
  have r1: "1 \<le> r" using assms(1) by (simp add: r_def)
  have r48: "r \<le> 2 ^ 48" using assms(4) by (simp add: r_def)
  have bn: "bytesNeeded r = Some n" using bytesNeeded_pos(1)[OF r1] assms(5) by (simp add: r_def)
  have rle: "r \<le> 256 ^ n" using bytesNeeded_pos(2)[OF r1] assms(5) by (simp add: r_def)
  have npos: "0 < n" using assms(5) by simp
  have n6: "n \<le> 6"
  proof -
    have "int (nat r) \<le> int (256 ^ 6)" using r48 r1 by simp
    then have "nat r \<le> 256 ^ 6" by (simp only: of_nat_le_iff)
    then show ?thesis unfolding assms(5) r_def[symmetric] by (rule ceilLog256_small)
  qed
  have p48: "(256::int) ^ n \<le> 2 ^ 48" using n6 by (rule power256_le)
  have mv: "maxValid = q * r - 1" using assms(6) by (simp add: q_def r_def)
  have q1: "1 \<le> q"
  proof -
    have "r div r \<le> 256 ^ n div r" using rle r1 by (intro zdiv_mono1) simp_all
    then show ?thesis using r1 by (simp add: q_def)
  qed
  have qr_le: "q * r \<le> 256 ^ n"
  proof -
    have "256 ^ n div r * r + 256 ^ n mod r = (256::int) ^ n" by simp
    moreover have "0 \<le> (256::int) ^ n mod r" using r1 by simp
    ultimately show ?thesis unfolding q_def by linarith
  qed
  have qr_gt: "256 ^ n < (q + 1) * r"
  proof -
    have "256 ^ n div r * r + 256 ^ n mod r = (256::int) ^ n" by simp
    moreover have "(256::int) ^ n mod r < r" using r1 by simp
    moreover have "(q + 1) * r = q * r + r" by (simp add: algebra_simps)
    ultimately show ?thesis unfolding q_def by linarith
  qed
  have A: "0 \<le> maxValid"
  proof -
    have "1 * r \<le> q * r" using q1 r1 by (intro mult_right_mono) simp_all
    then show ?thesis using r1 mv by simp
  qed
  have B: "maxValid < 256 ^ n" using qr_le mv by simp
  have B2: "256 ^ n < 2 * (maxValid + 1)"
  proof -
    have "(q + 1) * r \<le> (2 * q) * r" using q1 r1 by (intro mult_right_mono) simp_all
    then show ?thesis using qr_gt mv by simp
  qed
  have L: "int n = max 1 \<lceil>log 2 (real_of_int r) / 8\<rceil>"
  proof -
    define k where "k = ceilLog256 (nat r)"
    have ik: "int k = \<lceil>log 2 (real (nat r)) / 8\<rceil>"
      unfolding k_def by (rule ceilLog256_log) (use r1 in simp)
    have rr: "real (nat r) = real_of_int r" using r1 by simp
    have "n = max 1 k" using assms(5) by (simp only: k_def r_def)
    then have nk: "int n = max 1 (int k)" by simp
    show ?thesis unfolding nk ik rr ..
  qed
  txt \<open>No operation of this run rounds.\<close>
  have d1: "double (max' - min') = max' - min'"
    using r1 r48 by (intro double_small) (simp add: r_def)
  have d2: "double (max' - min' + 1) = r"
    unfolding r_def[symmetric] using r1 r48 by (intro double_small) simp
  have d3: "mathFloor (nearestDouble (256 ^ n) r) = q"
    unfolding q_def using r1 rle p48 by (intro floor_quotient) simp_all
  have d4: "double (q * r) = q * r"
    using qr_le p48 A mv by (intro double_small) simp
  have d5: "double (q * r - 1) = q * r - 1"
    using qr_le p48 A mv by (intro double_small) simp
  have d6: "double (min' + c mod r) = min' + c mod r" for c
  proof (rule double_small)
    have "0 \<le> c mod r" "c mod r < r" using r1 by simp_all
    then have "min' \<le> min' + c mod r" "min' + c mod r \<le> max'" by (simp_all add: r_def)
    then show "\<bar>min' + c mod r\<bar> < 2 ^ 53" using assms(2,3) by simp
  qed
  have ri: "randomInt min' max' t =
      andThen (sample n maxValid t)
        (\<lambda>(randomValue, tape'). Inr (double (min' + jsRem randomValue r), tape'))"
    for t
    by (simp add: randomInt_def Let_def d1 d2 bn d3 d4 d5 mv)
  have C: "min' \<le> v \<and> v \<le> max'" if "randomInt min' max' tape = Inr (v, tape')"
  proof -
    from that obtain c where s: "sample n maxValid tape = Inr (c, tape')"
      and v: "v = double (min' + jsRem c r)"
      unfolding ri by (auto simp: andThen_def split: sum.splits)
    have c: "0 \<le> c" using sample_result[OF s n6] by simp
    have "jsRem c r = c mod r" using c r1 by (simp add: jsRem_nonneg)
    then have "v = min' + c mod r" using v d6 by simp
    moreover have "0 \<le> c mod r" "c mod r < r" using r1 by simp_all
    ultimately show ?thesis by (simp add: r_def)
  qed
  have D: "e = NoEntropy" if "randomInt min' max' tape = Inl e"
    using that sample_error[of n maxValid tape e] unfolding ri
    by (auto simp: andThen_def split: sum.splits)
  have E: "randomInt min' max' (concat rejected @ chunk @ rest) =
              Inr (min' + reduceBytes chunk mod r, rest)"
    if "\<forall>c\<in>set rejected. length c = n \<and> reduceBytes c > maxValid"
      and "length chunk = n" and "reduceBytes chunk \<le> maxValid"
  proof -
    have "length chunk \<le> 6" using that(2) n6 by simp
    then have "jsRem (reduceBytes chunk) r = reduceBytes chunk mod r"
      using reduceBytes_bounds(1)[of chunk] r1 by (simp add: jsRem_nonneg)
    then show ?thesis
      unfolding ri sample_rejections[OF npos that] by (simp add: andThen_def d6)
  qed
  have F: "card {bs. length bs = n \<and> reduceBytes bs \<le> maxValid \<and>
                      min' + jsRem (reduceBytes bs) r = w} = nat q"
    if "min' \<le> w" "w \<le> max'"
  proof -
    let ?P = "\<lambda>c. c \<le> maxValid \<and> min' + jsRem c r = w"
    have "{bs. length bs = n \<and> reduceBytes bs \<le> maxValid \<and> min' + jsRem (reduceBytes bs) r = w} =
          {bs \<in> {bs. length bs = n}. ?P (reduceBytes bs)}" by auto
    then have "card {bs. length bs = n \<and> reduceBytes bs \<le> maxValid \<and>
                      min' + jsRem (reduceBytes bs) r = w} = card {c \<in> {0..<256 ^ n}. ?P c}"
      using card_bij_filter[OF reduceBytes_bij[OF n6], of ?P] by simp
    also have "{c \<in> {0..<256 ^ n}. ?P c} = {c. 0 \<le> c \<and> c \<le> q * r - 1 \<and> c mod r = w - min'}"
      using B r1 mv by (auto simp: jsRem_nonneg)
    also have "card \<dots> = nat q"
      by (rule residue_class_card) (use r1 q1 that in \<open>simp_all add: r_def\<close>)
    finally show ?thesis .
  qed
  show ?thesis
    using bn L A B B2 C D E F unfolding r_def q_def by blast
qed

lemma ceilLog256_20: "ceilLog256 (nat 20) = 1"
proof -
  have "ceilLog256 1 = 0" by (subst ceilLog256.simps) simp
  then show ?thesis by (subst ceilLog256.simps) simp
qed

lemma reduceBytes_single: "reduceBytes [b] = uint b"
proof -
  have "reduceBytes [b] = littleEndian [b]" by (rule reduceBytes_littleEndian) simp
  then show ?thesis by simp
qed

theorem randomInt_uniform_witness:
  "(1::int) \<le> 20 \<and> - (2 ^ 53) < (1::int) \<and> (20::int) < 2 ^ 53 \<and> (20::int) - 1 + 1 \<le> 2 ^ 48 \<and>
   bytesNeeded (20 - 1 + 1) = Some 1 \<and>
   reduceBytes [250] > 239 \<and> reduceBytes [45] \<le> 239 \<and>
   randomInt 1 20 [250, 45, 7] = Inr (6, [7]) \<and>
   card {bs. length bs = 1 \<and> reduceBytes bs \<le> 239 \<and> 1 + jsRem (reduceBytes bs) (20 - 1 + 1) = 6} = 12"
proof -
  have h1: "(1::int) \<le> 20" by simp
  have h1a: "- (2 ^ 53) < (1::int)" by simp
  have h1b: "(20::int) < 2 ^ 53" by simp
  have h1c: "(20::int) - 1 + 1 \<le> 2 ^ 48" by simp
  have h2: "(1::nat) = max 1 (ceilLog256 (nat (20 - 1 + 1)))" using ceilLog256_20 by simp
  have h3: "(239::int) = (256 ^ 1 div (20 - 1 + 1)) * (20 - 1 + 1) - 1" by simp
  note T = randomInt_uniform [OF h1 h1a h1b h1c h2 h3,
             of "[250, 45, 7]" 6 "[7]" NoEntropy "[[250]]" "[45]" "[7]" 6]
  have r1: "reduceBytes [250] > 239" by (simp add: reduceBytes_single)
  have r2: "reduceBytes [45] \<le> 239" by (simp add: reduceBytes_single)
  have r3: "reduceBytes [45] = 45" by (simp add: reduceBytes_single)
  have rej: "\<forall>c\<in>set [[250 :: 8 word]]. length c = 1 \<and> reduceBytes c > 239" using r1 by simp
  have "randomInt 1 20 (concat [[250]] @ [45] @ [7]) = Inr (1 + reduceBytes [45] mod (20 - 1 + 1), [7])"
    using T rej r2 by simp
  then have c1: "randomInt 1 20 [250, 45, 7] = Inr (6, [7])" unfolding r3 by simp
  have c2: "card {bs. length bs = 1 \<and> reduceBytes bs \<le> 239 \<and>
              1 + jsRem (reduceBytes bs) (20 - 1 + 1) = 6} = 12"
    using T by simp
  have c3: "bytesNeeded (20 - 1 + 1) = Some 1" using T by simp
  show ?thesis using h1 h1a h1b h1c r1 r2 c1 c2 c3 by blast
qed

section \<open>The rate limiter as a fixed window\<close>

lemma recordAttempt_in_window:
  assumes "entries rl key = Some e" and "\<not> now > resetAt e"
  shows "recordAttempt now key rl =
     (if count e \<ge> maxAttempts (limits rl)
      then (\<lparr>allowed = False, remaining = 0, attemptResetAt = resetAt e\<rparr>, rl)
      else (\<lparr>allowed = True, remaining = maxAttempts (limits rl) - (count e + 1),
             attemptResetAt = resetAt e\<rparr>,
            rl\<lparr>entries := (entries rl)(key \<mapsto> e\<lparr>count := count e + 1\<rparr>)\<rparr>))"
  using assms by (simp add: recordAttempt_def Let_def)

lemma recordAttempt_fresh:
  assumes "entries rl key = None \<or> (\<exists>e. entries rl key = Some e \<and> now > resetAt e)"
  shows "recordAttempt now key rl =
     (if 0 \<ge> maxAttempts (limits rl)
      then (\<lparr>allowed = False, remaining = 0, attemptResetAt = now + windowMs (limits rl)\<rparr>,
            rl\<lparr>entries := (entries rl)(key \<mapsto> \<lparr>count = 0, resetAt = now + windowMs (limits rl)\<rparr>)\<rparr>)
      else (\<lparr>allowed = True, remaining = maxAttempts (limits rl) - 1,
             attemptResetAt = now + windowMs (limits rl)\<rparr>,
            rl\<lparr>entries := (entries rl)(key \<mapsto> \<lparr>count = 1, resetAt = now + windowMs (limits rl)\<rparr>)\<rparr>))"
  using assms by (auto simp: recordAttempt_def Let_def)

lemma attempts_in_window:
  assumes "entries rl key = Some e" and "\<forall>t\<in>set ts. t \<le> resetAt e"
  shows "map allowed (fst (attempts ts key rl)) =
         map (\<lambda>i. count e + int i < maxAttempts (limits rl)) [0..<length ts]"
  using assms
proof (induction ts arbitrary: rl e)
  case Nil
  show ?case by simp
next
  case (Cons t ts)
  have w: "\<not> t > resetAt e" using Cons.prems(2) by simp
  have range: "[0..<length (t # ts)] = 0 # map Suc [0..<length ts]"
    by (simp add: upt_conv_Cons map_Suc_upt del: upt_Suc)
  show ?case
  proof (cases "count e \<ge> maxAttempts (limits rl)")
    case True
    have r: "recordAttempt t key rl = (\<lparr>allowed = False, remaining = 0, attemptResetAt = resetAt e\<rparr>, rl)"
      using recordAttempt_in_window[OF Cons.prems(1) w] True by simp
    have ih: "map allowed (fst (attempts ts key rl)) =
         map (\<lambda>i. count e + int i < maxAttempts (limits rl)) [0..<length ts]"
      using Cons.IH[OF Cons.prems(1)] Cons.prems(2) by simp
    show ?thesis unfolding range using True ih r by (simp add: split_beta o_def)
  next
    case False
    let ?e = "e\<lparr>count := count e + 1\<rparr>"
    let ?rl = "rl\<lparr>entries := (entries rl)(key \<mapsto> ?e)\<rparr>"
    have r: "recordAttempt t key rl = (\<lparr>allowed = True, remaining = maxAttempts (limits rl) - (count e + 1),
             attemptResetAt = resetAt e\<rparr>, ?rl)"
      using recordAttempt_in_window[OF Cons.prems(1) w] False by simp
    have ih: "map allowed (fst (attempts ts key ?rl)) =
         map (\<lambda>i. count ?e + int i < maxAttempts (limits ?rl)) [0..<length ts]"
      using Cons.IH[of ?rl ?e] Cons.prems(2) by simp
    show ?thesis unfolding range using False ih r by (simp add: split_beta o_def add.assoc)
  qed
qed

lemma attempts_fresh:
  assumes "entries rl key = None \<or> (\<exists>e. entries rl key = Some e \<and> t0 > resetAt e)"
      and "\<forall>t\<in>set ts. t \<le> t0 + windowMs (limits rl)"
  shows "map allowed (fst (attempts (t0 # ts) key rl)) =
         map (\<lambda>i. int i < maxAttempts (limits rl)) [0..<Suc (length ts)]"
proof -
  have range: "[0..<Suc (length ts)] = 0 # map Suc [0..<length ts]"
    by (simp add: upt_conv_Cons map_Suc_upt del: upt_Suc)
  let ?R = "t0 + windowMs (limits rl)"
  show ?thesis
  proof (cases "0 \<ge> maxAttempts (limits rl)")
    case True
    let ?e = "\<lparr>count = 0, resetAt = ?R\<rparr>"
    let ?rl = "rl\<lparr>entries := (entries rl)(key \<mapsto> ?e)\<rparr>"
    have r: "recordAttempt t0 key rl = (\<lparr>allowed = False, remaining = 0, attemptResetAt = ?R\<rparr>, ?rl)"
      using recordAttempt_fresh[OF assms(1)] True by simp
    have "map allowed (fst (attempts ts key ?rl)) =
         map (\<lambda>i. count ?e + int i < maxAttempts (limits ?rl)) [0..<length ts]"
      by (rule attempts_in_window) (use assms(2) in simp_all)
    then show ?thesis unfolding range using True r by (simp add: split_beta o_def)
  next
    case False
    let ?e = "\<lparr>count = 1, resetAt = ?R\<rparr>"
    let ?rl = "rl\<lparr>entries := (entries rl)(key \<mapsto> ?e)\<rparr>"
    have r: "recordAttempt t0 key rl = (\<lparr>allowed = True, remaining = maxAttempts (limits rl) - 1, attemptResetAt = ?R\<rparr>, ?rl)"
      using recordAttempt_fresh[OF assms(1)] False by simp
    have "map allowed (fst (attempts ts key ?rl)) =
         map (\<lambda>i. count ?e + int i < maxAttempts (limits ?rl)) [0..<length ts]"
      by (rule attempts_in_window) (use assms(2) in simp_all)
    then show ?thesis unfolding range using False r by (simp add: split_beta o_def)
  qed
qed

lemma recordAttempt_frame:
  "limits (snd (recordAttempt now key rl)) = limits rl"
  "k \<noteq> key \<Longrightarrow> entries (snd (recordAttempt now key rl)) k = entries rl k"
  by (auto simp: recordAttempt_def Let_def split: option.splits)

lemma nth_upt_map: "i < n \<Longrightarrow> map f [0..<n] ! i = f i"
  by simp

lemma attempts_length: "length (fst (attempts ts key rl)) = length ts"
  by (induction ts arbitrary: rl) (simp_all add: split_beta)

lemma exampleLimiter_run:
  "attempts [0, 10, 20] (str ''c1'') exampleLimiter =
     ([\<lparr>allowed = True, remaining = 1, attemptResetAt = 1000\<rparr>,
       \<lparr>allowed = True, remaining = 0, attemptResetAt = 1000\<rparr>,
       \<lparr>allowed = False, remaining = 0, attemptResetAt = 1000\<rparr>],
      \<lparr>entries = (Map.empty)(str ''c1'' \<mapsto> \<lparr>count = 2, resetAt = 1000\<rparr>),
       limits = \<lparr>maxAttempts = 2, windowMs = 1000\<rparr>\<rparr>)"
  by (simp add: exampleLimiter_def createRateLimiter_def recordAttempt_def Let_def)

text \<open>
  Claim C7. \<open>recordAttempt\<close> is a fixed-window counter. Where the key has no entry or
  its window has elapsed (\<open>now > resetAt\<close>), a window with count 0 and
  \<open>resetAt = now + windowMs\<close> is started first. Inside a window, a count of at least
  \<open>maxAttempts\<close> denies the call (\<open>allowed = false\<close>, \<open>remaining = 0\<close>) and leaves the
  limiter as it is; a smaller count is incremented and the call is allowed with
  \<open>remaining = maxAttempts - count\<close>. So among the attempts of one window, counted from 0,
  the \<open>i\<close>-th is allowed exactly if \<open>i < maxAttempts\<close>: the first \<open>maxAttempts\<close> are
  allowed and the next one is denied. Once the window has elapsed the key has
  \<open>maxAttempts\<close> attempts again.
\<close>

theorem recordAttempt_fixed_window:
  "(entries rl key = None \<or> (\<exists>e. entries rl key = Some e \<and> now > resetAt e) \<longrightarrow>
      fst (recordAttempt now key rl) =
        \<lparr>allowed = (0 < maxAttempts (limits rl)),
         remaining = (if 0 < maxAttempts (limits rl) then maxAttempts (limits rl) - 1 else 0),
         attemptResetAt = now + windowMs (limits rl)\<rparr> \<and>
      entries (snd (recordAttempt now key rl)) key =
        Some \<lparr>count = (if 0 < maxAttempts (limits rl) then 1 else 0),
              resetAt = now + windowMs (limits rl)\<rparr>) \<and>
   (\<forall>e. entries rl key = Some e \<and> \<not> now > resetAt e \<and> count e \<ge> maxAttempts (limits rl) \<longrightarrow>
      recordAttempt now key rl =
        (\<lparr>allowed = False, remaining = 0, attemptResetAt = resetAt e\<rparr>, rl)) \<and>
   (\<forall>e. entries rl key = Some e \<and> \<not> now > resetAt e \<and> count e < maxAttempts (limits rl) \<longrightarrow>
      fst (recordAttempt now key rl) =
        \<lparr>allowed = True, remaining = maxAttempts (limits rl) - (count e + 1),
         attemptResetAt = resetAt e\<rparr> \<and>
      entries (snd (recordAttempt now key rl)) key = Some (e\<lparr>count := count e + 1\<rparr>)) \<and>
   ((entries rl key = None \<or> (\<exists>e. entries rl key = Some e \<and> t0 > resetAt e)) \<and>
    (\<forall>t\<in>set ts. t \<le> t0 + windowMs (limits rl)) \<longrightarrow>
      map allowed (fst (attempts (t0 # ts) key rl)) =
        map (\<lambda>i. int i < maxAttempts (limits rl)) [0..<Suc (length ts)]) \<and>
   ((entries rl key = None \<or> (\<exists>e. entries rl key = Some e \<and> t0 > resetAt e)) \<and>
    (\<forall>t\<in>set ts. t \<le> t0 + windowMs (limits rl)) \<and> int (length ts) = maxAttempts (limits rl) \<longrightarrow>
      (\<forall>i < length ts. allowed (fst (attempts (t0 # ts) key rl) ! i)) \<and>
      \<not> allowed (fst (attempts (t0 # ts) key rl) ! length ts)) \<and>
   (\<forall>e. entries rl key = Some e \<and> now > resetAt e \<longrightarrow>
      getRemainingAttempts now key rl = maxAttempts (limits rl))"
proof -
  have D: "map allowed (fst (attempts (t0 # ts) key rl)) =
        map (\<lambda>i. int i < maxAttempts (limits rl)) [0..<Suc (length ts)]"
    if "entries rl key = None \<or> (\<exists>e. entries rl key = Some e \<and> t0 > resetAt e)"
      and "\<forall>t\<in>set ts. t \<le> t0 + windowMs (limits rl)"
    using attempts_fresh[OF that] .
  have len: "length (fst (attempts xs key rl')) = length xs" for xs rl'
    by (induction xs arbitrary: rl') (simp_all add: split_beta)
  have E: "(\<forall>i < length ts. allowed (fst (attempts (t0 # ts) key rl) ! i)) \<and>
      \<not> allowed (fst (attempts (t0 # ts) key rl) ! length ts)"
    if f: "entries rl key = None \<or> (\<exists>e. entries rl key = Some e \<and> t0 > resetAt e)"
      and w: "\<forall>t\<in>set ts. t \<le> t0 + windowMs (limits rl)"
      and m: "int (length ts) = maxAttempts (limits rl)"
  proof -
    have "allowed (fst (attempts (t0 # ts) key rl) ! i) = (int i < maxAttempts (limits rl))"
      if "i < Suc (length ts)" for i
    proof -
      have "allowed (fst (attempts (t0 # ts) key rl) ! i) =
            map allowed (fst (attempts (t0 # ts) key rl)) ! i"
        using that len[of "t0 # ts" rl] by simp
      also have "\<dots> = (int i < maxAttempts (limits rl))"
        unfolding D[OF f w] using that nth_upt_map[of i "Suc (length ts)"] by simp
      finally show ?thesis .
    qed
    then show ?thesis using m by auto
  qed
  show ?thesis
    using D E
    by (intro conjI impI allI)
       (auto simp: recordAttempt_fresh recordAttempt_in_window getRemainingAttempts_def)
qed

theorem recordAttempt_fixed_window_witness:
  "entries exampleLimiter (str ''c1'') = None \<and>
   20 \<le> 0 + windowMs (limits exampleLimiter) \<and>
   int (length [10, 20 :: int]) = maxAttempts (limits exampleLimiter) \<and>
   allowed (fst (attempts [0, 10, 20] (str ''c1'') exampleLimiter) ! 0) \<and>
   allowed (fst (attempts [0, 10, 20] (str ''c1'') exampleLimiter) ! 1) \<and>
   \<not> allowed (fst (attempts [0, 10, 20] (str ''c1'') exampleLimiter) ! length [10, 20 :: int]) \<and>
   map allowed (fst (attempts [0, 10, 20] (str ''c1'') exampleLimiter)) = [True, True, False] \<and>
   getRemainingAttempts 1001 (str ''c1'') (snd (attempts [0, 10, 20] (str ''c1'') exampleLimiter)) = 2"
proof -
  have h1: "entries exampleLimiter (str ''c1'') = None \<or>
            (\<exists>e. entries exampleLimiter (str ''c1'') = Some e \<and> 0 > resetAt e)"
    by (simp add: exampleLimiter_def createRateLimiter_def)
  have h2: "\<forall>t\<in>set [10, 20]. t \<le> 0 + windowMs (limits exampleLimiter)"
    by (simp add: exampleLimiter_def createRateLimiter_def)
  have h3: "int (length [10, 20 :: int]) = maxAttempts (limits exampleLimiter)"
    by (simp add: exampleLimiter_def createRateLimiter_def)
  have c: "(\<forall>i < length [10, 20 :: int]. allowed (fst (attempts [0, 10, 20] (str ''c1'') exampleLimiter) ! i)) \<and>
      \<not> allowed (fst (attempts [0, 10, 20] (str ''c1'') exampleLimiter) ! length [10, 20 :: int])"
    using recordAttempt_fixed_window [of exampleLimiter "str ''c1''" 0 0 "[10, 20]"] h1 h2 h3
    by blast
  have d: "map allowed (fst (attempts [0, 10, 20] (str ''c1'') exampleLimiter)) = [True, True, False]"
    unfolding exampleLimiter_run by simp
  have e: "getRemainingAttempts 1001 (str ''c1'') (snd (attempts [0, 10, 20] (str ''c1'') exampleLimiter)) = 2"
    unfolding exampleLimiter_run by (simp add: getRemainingAttempts_def)
  have h0: "entries exampleLimiter (str ''c1'') = None"
    by (simp add: exampleLimiter_def createRateLimiter_def)
  have h2': "20 \<le> 0 + windowMs (limits exampleLimiter)"
    using h2 by simp
  have c0: "allowed (fst (attempts [0, 10, 20] (str ''c1'') exampleLimiter) ! 0)"
    and c1: "allowed (fst (attempts [0, 10, 20] (str ''c1'') exampleLimiter) ! 1)"
    using c by simp_all
  show ?thesis using h0 h2' h3 c c0 c1 d e by blast
qed

section \<open>Verification\<close>

lemma verify_success_state:
  assumes "verify H now challenge sol clientIdentifier v = (r, v')" and "valid r"
  shows "challengeStore v' (ident challenge) = None"
    and "entries (rateLimiter v') (clientKeyOf clientIdentifier) = None"
  using assms
  by (auto simp: verify_def Let_def failure_def reset_def split: prod.splits option.splits if_splits)

lemma verify_not_found:
  assumes "challengeStore v (ident challenge) = None"
      and "allowed (fst (recordAttempt (now 0) (clientKeyOf clientIdentifier) (rateLimiter v)))"
      and "\<not> now 1 > expiresAt challenge"
      and "ident challenge = challengeId sol"
  shows "fst (verify H now challenge sol clientIdentifier v) = failure ''Challenge not found or already used'' CHALLENGE_NOT_FOUND"
  using assms by (auto simp: verify_def Let_def split: prod.splits)

lemma verifyStateless_frame:
  "snd (verifyStateless H now challenge sol clientIdentifier v) =
     v\<lparr>rateLimiter := snd (recordAttempt (now 0) (clientKeyOf clientIdentifier) (rateLimiter v))\<rparr>"
  by (simp add: verifyStateless_def Let_def split: prod.splits)

lemma verifyStateless_store_independent:
  "fst (verifyStateless H now challenge sol clientIdentifier (v\<lparr>challengeStore := st\<rparr>)) =
   fst (verifyStateless H now challenge sol clientIdentifier v)"
  by (simp add: verifyStateless_def Let_def split: prod.splits)

lemma verifyStateless_rate_limited:
  "errorCode (fst (verifyStateless H now challenge sol cid v)) = Some RATE_LIMITED \<longleftrightarrow>
   \<not> allowed (fst (recordAttempt (now 0) (clientKeyOf cid) (rateLimiter v)))"
  by (auto simp: verifyStateless_def Let_def failure_def split: prod.splits)

lemma statelessCalls_attempts:
  "map (\<lambda>r. errorCode r \<noteq> Some RATE_LIMITED) (fst (statelessCalls H calls cid v)) =
   map allowed (fst (attempts (map (\<lambda>c. fst c 0) calls) (clientKeyOf cid) (rateLimiter v)))"
proof (induction calls arbitrary: v)
  case Nil show ?case by simp
next
  case (Cons c calls)
  obtain now challenge sol where c: "c = (now, challenge, sol)" by (cases c) auto
  show ?case unfolding c
    using Cons.IH[of "snd (verifyStateless H now challenge sol cid v)"] 
    by (simp add: split_beta verifyStateless_rate_limited verifyStateless_frame)
qed

lemma example_first_attempt:
  "recordAttempt t (str ''anonymous'') (rateLimiter exampleVerifier) =
     (\<lparr>allowed = True, remaining = 9, attemptResetAt = t + 60000\<rparr>,
      \<lparr>entries = (Map.empty)(str ''anonymous'' \<mapsto> \<lparr>count = 1, resetAt = t + 60000\<rparr>),
       limits = \<lparr>maxAttempts = 10, windowMs = 60000\<rparr>\<rparr>)"
  by (simp add: recordAttempt_def exampleVerifier_def createVerifier_def defaultConfig_def
        createRateLimiter_def Let_def)

text \<open>
  Claim C6. A call of \<open>verify\<close> whose challenge and solution name the same id, whose
  client is not rate limited, and which reads a clock after \<open>expiresAt\<close> of the challenge
  returns \<open>valid = false\<close> with the error code \<open>EXPIRED\<close>, whatever the solution, the
  store and the signature are.
\<close>

theorem verify_expired_EXPIRED:
  assumes "ident challenge = challengeId sol"
      and "now 1 > expiresAt challenge"
      and "allowed (fst (recordAttempt (now 0) (clientKeyOf clientIdentifier) (rateLimiter v)))"
  shows "valid (fst (verify H now challenge sol clientIdentifier v)) = False \<and>
         errorCode (fst (verify H now challenge sol clientIdentifier v)) = Some EXPIRED"
  using assms by (auto simp: verify_def Let_def failure_def split: prod.splits)

theorem verify_expired_EXPIRED_witness:
  "ident exampleChallenge = challengeId exampleSolution \<and>
   expiresAt exampleChallenge < 40000 \<and>
   allowed (fst (recordAttempt 40000 (clientKeyOf None) (rateLimiter exampleVerifier))) \<and>
   valid (fst (verify exampleH (\<lambda>i. 40000) exampleChallenge exampleSolution None
            (storeChallenge (str ''0a1b'') (str ''7'') 31000 exampleVerifier))) = False \<and>
   errorCode (fst (verify exampleH (\<lambda>i. 40000) exampleChallenge exampleSolution None
            (storeChallenge (str ''0a1b'') (str ''7'') 31000 exampleVerifier))) = Some EXPIRED"
  using verify_expired_EXPIRED [of exampleChallenge exampleSolution "\<lambda>i. 40000" None
          "storeChallenge (str ''0a1b'') (str ''7'') 31000 exampleVerifier" exampleH]
  by (simp add: exampleChallenge_def exampleSolution_def clientKeyOf_def example_first_attempt
        storeChallenge_def)

lemma safeCompare_same: "safeCompare a a"
  by (simp add: safeCompare_def timingSafeEqual_def)

lemma example_verify:
  "verify exampleH (\<lambda>i. t) exampleSigned exampleSolution None exampleStored =
     (if t > 31000 then (failure ''Challenge has expired'' EXPIRED,
        exampleStored\<lparr>rateLimiter := snd (recordAttempt t (str ''anonymous'') (rateLimiter exampleVerifier))\<rparr>)
      else (\<lparr>valid = True, error = None, errorCode = None\<rparr>, exampleVerifier))"
  by (simp add: verify_def Let_def clientKeyOf_def recordAttempt_def failure_def exampleStored_def
        storeChallenge_def exampleSigned_def exampleChallenge_def exampleSolution_def
        safeCompare_same reset_def exampleVerifier_def createVerifier_def createRateLimiter_def
        defaultConfig_def)

lemma exampleSigned_fields:
  "ident exampleSigned = str ''0a1b''" "expiresAt exampleSigned = 31000"
  by (simp_all add: exampleSigned_def exampleChallenge_def)

text \<open>
  Claim C2. When \<open>verify\<close> returns \<open>valid = true\<close>, the store has no entry for the id
  of the challenge any more and the rate limiter has no entry for the client; a second
  call with the same challenge and solution, before the expiry and not rate limited,
  returns \<open>valid = false\<close> with the error code \<open>CHALLENGE_NOT_FOUND\<close>.
\<close>

theorem verify_one_time_use:
  assumes "verify H now challenge sol clientIdentifier v = (r, v')" and "valid r"
  shows "challengeStore v' (ident challenge) = None \<and>
         entries (rateLimiter v') (clientKeyOf clientIdentifier) = None \<and>
         (allowed (fst (recordAttempt (now' 0) (clientKeyOf clientIdentifier) (rateLimiter v'))) \<and>
          \<not> now' 1 > expiresAt challenge \<longrightarrow>
            valid (fst (verify H now' challenge sol clientIdentifier v')) = False \<and>
            errorCode (fst (verify H now' challenge sol clientIdentifier v')) = Some CHALLENGE_NOT_FOUND)"
proof -
  have st: "challengeStore v' (ident challenge) = None"
    and rl: "entries (rateLimiter v') (clientKeyOf clientIdentifier) = None"
    using verify_success_state[OF assms] by simp_all
  have idm: "ident challenge = challengeId sol"
    using assms by (auto simp: verify_def Let_def failure_def split: prod.splits option.splits if_splits)
  have "fst (verify H now' challenge sol clientIdentifier v') =
          failure ''Challenge not found or already used'' CHALLENGE_NOT_FOUND"
    if "allowed (fst (recordAttempt (now' 0) (clientKeyOf clientIdentifier) (rateLimiter v')))"
      and "\<not> now' 1 > expiresAt challenge"
    using verify_not_found[OF st that idm] .
  then show ?thesis using st rl by (simp add: failure_def)
qed

theorem verify_one_time_use_witness:
  "valid (fst (verify exampleH (\<lambda>i. 1000) exampleSigned exampleSolution None exampleStored)) \<and>
   challengeStore (snd (verify exampleH (\<lambda>i. 1000) exampleSigned exampleSolution None exampleStored))
     (ident exampleSigned) = None \<and>
   entries (rateLimiter (snd (verify exampleH (\<lambda>i. 1000) exampleSigned exampleSolution None exampleStored)))
     (clientKeyOf None) = None \<and>
   allowed (fst (recordAttempt 2000 (clientKeyOf None)
     (rateLimiter (snd (verify exampleH (\<lambda>i. 1000) exampleSigned exampleSolution None exampleStored))))) \<and>
   \<not> 2000 > expiresAt exampleSigned \<and>
   errorCode (fst (verify exampleH (\<lambda>i. 2000) exampleSigned exampleSolution None
     (snd (verify exampleH (\<lambda>i. 1000) exampleSigned exampleSolution None exampleStored)))) =
     Some CHALLENGE_NOT_FOUND"
  using verify_one_time_use [of exampleH "\<lambda>i. 1000" exampleSigned exampleSolution None exampleStored
          "\<lparr>valid = True, error = None, errorCode = None\<rparr>" exampleVerifier "\<lambda>i. 2000"]
  by (simp add: example_verify clientKeyOf_def example_first_attempt exampleSigned_fields)

lemma statelessCalls_length: "length (fst (statelessCalls H calls cid v)) = length calls"
  by (induction calls arbitrary: v) (auto simp: split_beta)

lemma verifyStateless_valid_code:
  "valid (fst (verifyStateless H now challenge sol cid v)) \<Longrightarrow>
   errorCode (fst (verifyStateless H now challenge sol cid v)) = None"
  by (auto simp: verifyStateless_def Let_def failure_def split: prod.splits if_splits)

lemma statelessCalls_valid_code:
  "r \<in> set (fst (statelessCalls H calls cid v)) \<Longrightarrow> valid r \<Longrightarrow> errorCode r = None"
proof (induction calls arbitrary: v)
  case Nil then show ?case by simp
next
  case (Cons a calls)
  obtain n' c' s' where a: "a = (n', c', s')" by (cases a) auto
  show ?case using Cons unfolding a by (auto simp: split_beta verifyStateless_valid_code)
qed

lemma exampleLimited_run:
  "statelessCalls exampleH
     [(\<lambda>i. 0, exampleSigned, exampleSolution), (\<lambda>i. 10, exampleSigned, exampleSolution),
      (\<lambda>i. 20, exampleSigned, exampleSolution)] None exampleLimited =
   ([\<lparr>valid = True, error = None, errorCode = None\<rparr>,
     \<lparr>valid = True, error = None, errorCode = None\<rparr>,
     \<lparr>valid = False, error = Some (rateLimitedMessage 1000 20), errorCode = Some RATE_LIMITED\<rparr>],
    exampleLimited\<lparr>rateLimiter :=
      \<lparr>entries = (Map.empty)(str ''anonymous'' \<mapsto> \<lparr>count = 2, resetAt = 1000\<rparr>),
       limits = \<lparr>maxAttempts = 2, windowMs = 1000\<rparr>\<rparr>\<rparr>)"
  by (simp add: verifyStateless_def Let_def clientKeyOf_def recordAttempt_def failure_def
        exampleLimited_def exampleSigned_def exampleChallenge_def exampleSolution_def
        safeCompare_same createVerifier_def createRateLimiter_def defaultConfig_def)

text \<open>
  Claim C10. The state after \<open>verifyStateless\<close> is the state before it with the one
  \<open>recordAttempt\<close> of the client applied: the store is neither changed nor read (the
  result is the same with any other store), and the entry of the client stays in the rate
  limiter when the result is \<open>valid = true\<close>, where \<open>verify\<close> deletes it. So in a window
  that the first of \<open>maxAttempts + 1\<close> stateless calls of one client opens, if the first
  \<open>maxAttempts\<close> calls are valid then the last one returns \<open>RATE_LIMITED\<close>.
\<close>

theorem verifyStateless_only_counts:
  "snd (verifyStateless H now challenge sol clientIdentifier v) =
     v\<lparr>rateLimiter := snd (recordAttempt (now 0) (clientKeyOf clientIdentifier) (rateLimiter v))\<rparr> \<and>
   fst (verifyStateless H now challenge sol clientIdentifier (v\<lparr>challengeStore := st\<rparr>)) =
     fst (verifyStateless H now challenge sol clientIdentifier v) \<and>
   (valid (fst (verifyStateless H now challenge sol clientIdentifier v)) \<longrightarrow>
      entries (rateLimiter (snd (verifyStateless H now challenge sol clientIdentifier v)))
        (clientKeyOf clientIdentifier) \<noteq> None) \<and>
   (valid (fst (verify H now challenge sol clientIdentifier v)) \<longrightarrow>
      entries (rateLimiter (snd (verify H now challenge sol clientIdentifier v)))
        (clientKeyOf clientIdentifier) = None) \<and>
   ((entries (rateLimiter v) (clientKeyOf clientIdentifier) = None \<or>
     (\<exists>e. entries (rateLimiter v) (clientKeyOf clientIdentifier) = Some e \<and> fst c 0 > resetAt e)) \<and>
    (\<forall>c'\<in>set cs. fst c' 0 \<le> fst c 0 + windowMs (limits (rateLimiter v))) \<and>
    int (length cs) = maxAttempts (limits (rateLimiter v)) \<and>
    (\<forall>i < length cs. valid (fst (statelessCalls H (c # cs) clientIdentifier v) ! i)) \<longrightarrow>
      valid (fst (statelessCalls H (c # cs) clientIdentifier v) ! length cs) = False \<and>
      errorCode (fst (statelessCalls H (c # cs) clientIdentifier v) ! length cs) = Some RATE_LIMITED)"
proof -
  let ?key = "clientKeyOf clientIdentifier"
  have A: "snd (verifyStateless H now challenge sol clientIdentifier v) =
     v\<lparr>rateLimiter := snd (recordAttempt (now 0) ?key (rateLimiter v))\<rparr>"
    by (rule verifyStateless_frame)
  have B: "fst (verifyStateless H now challenge sol clientIdentifier (v\<lparr>challengeStore := st\<rparr>)) =
     fst (verifyStateless H now challenge sol clientIdentifier v)"
    by (rule verifyStateless_store_independent)
  have C: "entries (rateLimiter (snd (verifyStateless H now challenge sol clientIdentifier v))) ?key \<noteq> None"
    unfolding A by (auto simp: recordAttempt_def Let_def split: option.splits)
  have D: "entries (rateLimiter (snd (verify H now challenge sol clientIdentifier v))) ?key = None"
    if "valid (fst (verify H now challenge sol clientIdentifier v))"
    using verify_success_state(2)[OF prod.collapse[symmetric] that] .
  have E: "valid (fst (statelessCalls H (c # cs) clientIdentifier v) ! length cs) = False \<and>
      errorCode (fst (statelessCalls H (c # cs) clientIdentifier v) ! length cs) = Some RATE_LIMITED"
    if f: "entries (rateLimiter v) ?key = None \<or>
           (\<exists>e. entries (rateLimiter v) ?key = Some e \<and> fst c 0 > resetAt e)"
      and w: "\<forall>c'\<in>set cs. fst c' 0 \<le> fst c 0 + windowMs (limits (rateLimiter v))"
      and m: "int (length cs) = maxAttempts (limits (rateLimiter v))"
  proof -
    let ?rs = "fst (statelessCalls H (c # cs) clientIdentifier v)"
    let ?as = "fst (attempts (map (\<lambda>c. fst c 0) (c # cs)) ?key (rateLimiter v))"
    have w': "\<forall>t\<in>set (map (\<lambda>c. fst c 0) cs). t \<le> fst c 0 + windowMs (limits (rateLimiter v))"
      using w by simp
    have 1: "map (\<lambda>r. errorCode r \<noteq> Some RATE_LIMITED) ?rs = map allowed ?as"
      by (rule statelessCalls_attempts)
    have 2: "map allowed ?as =
             map (\<lambda>i. int i < maxAttempts (limits (rateLimiter v))) [0..<Suc (length cs)]"
      using attempts_fresh[OF f w'] by simp
    have "(errorCode (?rs ! length cs) \<noteq> Some RATE_LIMITED) =
          map (\<lambda>r. errorCode r \<noteq> Some RATE_LIMITED) ?rs ! length cs"
      using statelessCalls_length[of H "c # cs" clientIdentifier v] by simp
    also have "\<dots> = (int (length cs) < maxAttempts (limits (rateLimiter v)))"
      unfolding 1 2 using nth_upt_map[of "length cs" "Suc (length cs)"] by simp
    finally have rl: "errorCode (?rs ! length cs) = Some RATE_LIMITED" using m by simp
    have "?rs ! length cs \<in> set ?rs"
      using statelessCalls_length[of H "c # cs" clientIdentifier v] by (simp del: statelessCalls.simps)
    then have "\<not> valid (?rs ! length cs)" using rl statelessCalls_valid_code by fastforce
    then show ?thesis using rl by simp
  qed
  show ?thesis using A B C D E by simp
qed

theorem verifyStateless_only_counts_witness:
  "entries (rateLimiter exampleLimited) (clientKeyOf None) = None \<and>
   int (length [(\<lambda>i::nat. 10::int, exampleSigned, exampleSolution),
                (\<lambda>i. 20, exampleSigned, exampleSolution)]) =
     maxAttempts (limits (rateLimiter exampleLimited)) \<and>
   map valid (fst (statelessCalls exampleH
     [(\<lambda>i. 0, exampleSigned, exampleSolution), (\<lambda>i. 10, exampleSigned, exampleSolution),
      (\<lambda>i. 20, exampleSigned, exampleSolution)] None exampleLimited)) = [True, True, False] \<and>
   errorCode (fst (statelessCalls exampleH
     [(\<lambda>i. 0, exampleSigned, exampleSolution), (\<lambda>i. 10, exampleSigned, exampleSolution),
      (\<lambda>i. 20, exampleSigned, exampleSolution)] None exampleLimited) !
        length [(\<lambda>i::nat. 10::int, exampleSigned, exampleSolution),
                (\<lambda>i. 20, exampleSigned, exampleSolution)]) = Some RATE_LIMITED \<and>
   challengeStore (snd (statelessCalls exampleH
     [(\<lambda>i. 0, exampleSigned, exampleSolution), (\<lambda>i. 10, exampleSigned, exampleSolution),
      (\<lambda>i. 20, exampleSigned, exampleSolution)] None exampleLimited)) = challengeStore exampleLimited"
proof -
  let ?c = "(\<lambda>i::nat. 0::int, exampleSigned, exampleSolution)"
  let ?cs = "[(\<lambda>i::nat. 10::int, exampleSigned, exampleSolution),
              (\<lambda>i. 20, exampleSigned, exampleSolution)]"
  have h0: "entries (rateLimiter exampleLimited) (clientKeyOf None) = None"
    by (simp add: exampleLimited_def createVerifier_def createRateLimiter_def)
  have h2: "\<forall>c'\<in>set ?cs. fst c' 0 \<le> fst ?c 0 + windowMs (limits (rateLimiter exampleLimited))"
    by (simp add: exampleLimited_def createVerifier_def createRateLimiter_def defaultConfig_def)
  have h3: "int (length ?cs) = maxAttempts (limits (rateLimiter exampleLimited))"
    by (simp add: exampleLimited_def createVerifier_def createRateLimiter_def defaultConfig_def)
  have h4: "\<forall>i < length ?cs. valid (fst (statelessCalls exampleH (?c # ?cs) None exampleLimited) ! i)"
    unfolding exampleLimited_run by (simp add: nth_Cons split: nat.splits)
  have c: "errorCode (fst (statelessCalls exampleH (?c # ?cs) None exampleLimited) ! length ?cs) =
           Some RATE_LIMITED"
    using verifyStateless_only_counts [of exampleH "\<lambda>i. 0" exampleSigned exampleSolution None
            exampleLimited "Map.empty" ?c ?cs] h0 h2 h3 h4
    by blast
  have d: "map valid (fst (statelessCalls exampleH (?c # ?cs) None exampleLimited)) = [True, True, False]"
    unfolding exampleLimited_run by simp
  have e: "challengeStore (snd (statelessCalls exampleH (?c # ?cs) None exampleLimited)) =
           challengeStore exampleLimited"
    unfolding exampleLimited_run by simp
  show ?thesis using h0 h3 c d e by blast
qed

section \<open>Generation followed by verification\<close>

lemma generate_signature:
  assumes "generate H gFE gCO cfg overrides now0 tape = Inr ((challenge, answer), tape')"
  shows "signature challenge =
           signChallenge H
             (JSON_stringify
                [(str ''id'', JString (ident challenge)),
                 (str ''type'', JString (kind challenge)),
                 (str ''payload'', payload challenge),
                 (str ''expiresAt'', JNumber (Integer (expiresAt challenge))),
                 (str ''expectedAnswer'', JString answer)])
             (secret cfg)"
    and "expiresAt challenge = now0 + expirationMs cfg"
  using assms unfolding generate_def
  by (auto simp: andThen_def Let_def split: sum.splits prod.splits option.splits)

lemma ceilLog256_20': "ceilLog256 20 = 1"
proof -
  have "ceilLog256 1 = 0" by (subst ceilLog256.simps) simp
  then show ?thesis by (subst ceilLog256.simps) simp
qed

lemma randomInt_1_20:
  "b \<le> 239 \<Longrightarrow> randomInt 1 20 (b # tape) = Inr (1 + uint b mod 20, tape)"
proof -
  assume b: "b \<le> 239"
  have rb: "reduceBytes [b] = uint b" by (rule reduceBytes_single)
  have le: "uint b \<le> 239" using b by (simp add: word_le_def)
  have "sample 1 239 ([b] @ tape) = Inr (reduceBytes [b], tape)"
    by (rule sample_accept) (simp_all add: rb le)
  then have s: "sample (Suc 0) 239 (b # tape) = Inr (uint b, tape)" by (simp add: rb)
  have j: "jsRem (uint b) 20 = uint b mod 20" by (rule jsRem_nonneg) simp_all
  have fq: "mathFloor (nearestDouble 256 20) = 12" using floor_quotient[of 20 256] by simp
  have "0 \<le> uint b mod 20" "uint b mod 20 < 20" by simp_all
  then have "\<bar>1 + uint b mod 20\<bar> < 2 ^ 53" by simp
  then have d: "double (1 + uint b mod 20) = 1 + uint b mod 20" by (rule double_small)
  show ?thesis
    by (simp add: randomInt_def bytesNeeded_def ceilLog256_20' Let_def s andThen_def j fq
          double_small d)
qed

lemma example_codeTransform:
  "generateCodeTransform (str ''easy'') (2 # 3 # tape) = Inr ((examplePayload, str ''7''), tape)"
proof -
  have d: "decimal 3 = str ''3''" "decimal 4 = str ''4''" "decimal 7 = str ''7''"
    by (subst decimal.simps, simp add: str_def)+
  have a: "randomInt 1 20 (2 # 3 # tape) = Inr (3, 3 # tape)"
    using randomInt_1_20[of 2 "3 # tape"] by simp
  have b: "randomInt 1 20 (3 # tape) = Inr (4, tape)"
    using randomInt_1_20[of 3 tape] by simp
  have c: "str ''const x = '' @ str ''3'' @ str ''; const y = '' @ str ''4'' @ str ''; return x + y;'' =
           str ''const x = 3; const y = 4; return x + y;''"
    by (simp add: str_def)
  show ?thesis
    by (simp add: generateCodeTransform_def a b andThen_def Let_def numberToString_def d c
          getResponseEncoding_def encodeWith_def encode_def encodingValue_def examplePayload_def)
qed

lemma example_generate:
  "generate exampleH noBuilder noBuilder (defaultConfig (str ''s3cret'')) exampleOverrides 1000
     exampleTape = Inr ((exampleGenerated, str ''7''), [])"
proof -
  have t: "str ''code_transform'' \<noteq> str ''function_execution''"
    "str ''code_transform'' \<noteq> str ''chained_operations''"
    "str ''code_transform'' \<noteq> str ''encoded_instruction''"
    "str ''code_transform'' \<noteq> str ''pattern_extraction''"
    by (simp_all add: str_def)
  have id: "generateId 32 exampleIdBytes = Inr (toString_hex exampleIdBytes, [])"
    by (simp add: generateId_def randomBytes_def andThen_def exampleIdBytes_def)
  show ?thesis
    using t
    by (simp add: generate_def exampleOverrides_def exampleTape_def generatePayload_def
          example_codeTransform andThen_def Let_def id defaultConfig_def exampleGenerated_def)
qed

text \<open>
  Claim C1. Whatever the type and the difficulty, and whatever the builders of the
  payload return: when \<open>generate\<close> returns a challenge and its expected answer, the
  signature of the challenge is the one that \<open>verify\<close> recomputes, over the same JSON text
  of \<open>{id, type, payload, expiresAt, expectedAnswer}\<close>; and once the answer is stored under
  the identifier of the challenge, \<open>verify\<close> of the challenge and the expected answer
  returns \<open>{valid: true}\<close>, for a verifier that has the secret of the generator, a client
  that is not rate limited, and a clock that has not passed \<open>expiresAt\<close>.
\<close>

theorem generate_then_verify:
  assumes "generate H gFE gCO cfg overrides now0 tape = Inr ((challenge, answer), tape')"
      and "secret (config v) = secret cfg"
      and "allowed (fst (recordAttempt (now 0) (clientKeyOf clientIdentifier) (rateLimiter v)))"
      and "now 1 \<le> expiresAt challenge" and "now 2 \<le> expiresAt challenge"
  shows "signature challenge =
           signChallenge H
             (JSON_stringify
                [(str ''id'', JString (ident challenge)),
                 (str ''type'', JString (kind challenge)),
                 (str ''payload'', payload challenge),
                 (str ''expiresAt'', JNumber (Integer (expiresAt challenge))),
                 (str ''expectedAnswer'', JString answer)])
             (secret cfg) \<and>
         fst (verify H now challenge \<lparr>challengeId = ident challenge, solution = answer\<rparr>
                clientIdentifier
                (storeChallenge (ident challenge) answer (expiresAt challenge) v)) =
           \<lparr>valid = True, error = None, errorCode = None\<rparr>"
proof -
  note sg = generate_signature(1)[OF assms(1)]
  obtain r rl where ra: "recordAttempt (now 0) (clientKeyOf clientIdentifier) (rateLimiter v) = (r, rl)"
    by (cases "recordAttempt (now 0) (clientKeyOf clientIdentifier) (rateLimiter v)")
  have al: "allowed r" using assms(3) ra by simp
  have "fst (verify H now challenge \<lparr>challengeId = ident challenge, solution = answer\<rparr>
                clientIdentifier
                (storeChallenge (ident challenge) answer (expiresAt challenge) v)) =
           \<lparr>valid = True, error = None, errorCode = None\<rparr>"
    using al assms(2,4,5)
    by (simp add: verify_def storeChallenge_def Let_def ra sg[symmetric] safeCompare_same)
  then show ?thesis using sg by simp
qed

theorem generate_then_verify_witness:
  "generate exampleH noBuilder noBuilder (defaultConfig (str ''s3cret'')) exampleOverrides 1000
     exampleTape = Inr ((exampleGenerated, str ''7''), []) \<and>
   secret (config exampleVerifier) = secret (defaultConfig (str ''s3cret'')) \<and>
   allowed (fst (recordAttempt 2000 (clientKeyOf None) (rateLimiter exampleVerifier))) \<and>
   2000 \<le> expiresAt exampleGenerated \<and>
   fst (verify exampleH (\<lambda>i. 2000) exampleGenerated
          \<lparr>challengeId = ident exampleGenerated, solution = str ''7''\<rparr> None
          (storeChallenge (ident exampleGenerated) (str ''7'') (expiresAt exampleGenerated)
             exampleVerifier)) =
     \<lparr>valid = True, error = None, errorCode = None\<rparr>"
proof -
  have h2: "secret (config exampleVerifier) = secret (defaultConfig (str ''s3cret''))"
    by (simp add: exampleVerifier_def createVerifier_def)
  have h3: "allowed (fst (recordAttempt ((\<lambda>i. 2000) 0) (clientKeyOf None) (rateLimiter exampleVerifier)))"
    by (simp add: clientKeyOf_def example_first_attempt)
  have h4: "(\<lambda>i::nat. 2000::int) 1 \<le> expiresAt exampleGenerated"
       "(\<lambda>i::nat. 2000::int) 2 \<le> expiresAt exampleGenerated"
    by (simp_all add: exampleGenerated_def)
  have c: "fst (verify exampleH (\<lambda>i. 2000) exampleGenerated
          \<lparr>challengeId = ident exampleGenerated, solution = str ''7''\<rparr> None
          (storeChallenge (ident exampleGenerated) (str ''7'') (expiresAt exampleGenerated)
             exampleVerifier)) =
     \<lparr>valid = True, error = None, errorCode = None\<rparr>"
    using generate_then_verify [OF example_generate h2 h3 h4] by simp
  show ?thesis using example_generate h2 h3 h4 c by simp
qed

section \<open>The JSON text is well formed\<close>

lemma wellFormed_plain_Cons:
  "\<not> isHigh u \<Longrightarrow> \<not> isLow u \<Longrightarrow> wellFormed (u # us) = wellFormed us"
  by (cases us) simp_all

lemma wellFormed_pair_Cons:
  "isHigh u \<Longrightarrow> isLow v \<Longrightarrow> wellFormed (u # v # us) = wellFormed us"
  by simp

lemma wellFormed_append: "wellFormed a \<Longrightarrow> wellFormed b \<Longrightarrow> wellFormed (a @ b)"
proof (induction a rule: wellFormed.induct)
  case 1 then show ?case by simp
next
  case (2 u) then show ?case by (simp add: wellFormed_plain_Cons)
next
  case (3 u v us)
  then show ?case by (cases "isHigh u") simp_all
qed

lemma wellFormed_plain: "\<forall>u\<in>set us. u < 0xD800 \<Longrightarrow> wellFormed us"
proof (induction us)
  case Nil show ?case by simp
next
  case (Cons u us)
  then have "\<not> isHigh u" "\<not> isLow u" by (simp_all add: isHigh_def isLow_def)
  then show ?case using Cons by (simp add: wellFormed_plain_Cons)
qed

lemma isWellFormed_append: "isWellFormed a \<Longrightarrow> isWellFormed b \<Longrightarrow> isWellFormed (a @ b)"
  by (simp add: isWellFormed_def wellFormed_append)

lemma isWellFormed_plain: "\<forall>u\<in>set s. unat u < 0xD800 \<Longrightarrow> isWellFormed s"
  by (simp add: isWellFormed_def wellFormed_plain)

lemma isWellFormed_Nil: "isWellFormed []"
  by (simp add: isWellFormed_def)

lemma hexDigit_small: "n < 16 \<Longrightarrow> unat (hexDigit n) < 128"
  by (auto simp: hexDigit_def unat_of_nat16)

lemma isWellFormed_toString_hex: "isWellFormed (toString_hex buf)"
proof (rule isWellFormed_plain, rule ballI)
  fix u assume "u \<in> set (toString_hex buf)"
  then have "\<exists>n < 16. u = hexDigit n"
  proof (induction buf)
    case Nil then show ?case by (simp add: toString_hex_def)
  next
    case (Cons b buf)
    have d: "unat b div 16 < 16" "unat b mod 16 < 16" using unat8_lt[of b] by simp_all
    have "toString_hex (b # buf) =
          hexDigit (unat b div 16) # hexDigit (unat b mod 16) # toString_hex buf"
      by (simp add: toString_hex_def)
    then have "u = hexDigit (unat b div 16) \<or> u = hexDigit (unat b mod 16) \<or> u \<in> set (toString_hex buf)"
      using Cons.prems by simp
    then show ?case using d Cons.IH by blast
  qed
  then obtain n where "n < 16" "u = hexDigit n" by blast
  then show "unat u < 0xD800" using hexDigit_small[of n] by simp
qed

lemma toString_hex_inj: "toString_hex a = toString_hex b \<Longrightarrow> a = b"
  by (metis Buffer_from_hex_toString_hex)

lemma isWellFormed_str: "isWellFormed (str s)"
proof (rule isWellFormed_plain, rule ballI)
  fix u assume "u \<in> set (str s)"
  then obtain c where u: "u = of_nat (of_char c)" by (auto simp: str_def)
  have "(of_char c :: nat) < 256" by (rule nat_of_char_less_256)
  have "(of_char c :: nat) < 65536" by (rule less_trans[OF nat_of_char_less_256]) simp
  then have "unat (of_nat (of_char c) :: 16 word) = of_char c"
    by (rule unat_of_nat16)
  moreover have "(of_char c :: nat) < 0xD800" by (rule less_trans[OF nat_of_char_less_256]) simp
  ultimately show "unat u < 0xD800" using u by simp
qed

lemma isWellFormed_unicodeEscape: "isWellFormed (unicodeEscape u)"
proof -
  have lt: "unat u < 65536" using unsigned_less[of u, where 'a=nat] by simp
  have d: "unat u div 4096 < 16" "unat u div 256 mod 16 < 16" "unat u div 16 mod 16 < 16"
    "unat u mod 16 < 16" using lt by simp_all
  show ?thesis
    unfolding unicodeEscape_def
    by (rule isWellFormed_plain)
       (use hexDigit_small[OF d(1)] hexDigit_small[OF d(2)] hexDigit_small[OF d(3)]
          hexDigit_small[OF d(4)] in auto)
qed

lemma isWellFormed_Cons_plain: "unat u < 0xD800 \<Longrightarrow> isWellFormed s \<Longrightarrow> isWellFormed (u # s)"
  using isWellFormed_append[of "[u]" s] isWellFormed_plain[of "[u]"] by simp

lemma singleCharacterEscape_small: "singleCharacterEscape u = Some c \<Longrightarrow> unat c < 128"
  by (auto simp: singleCharacterEscape_def split: if_splits)

lemma isWellFormed_two: "unat a < 0xD800 \<Longrightarrow> unat b < 0xD800 \<Longrightarrow> isWellFormed [a, b]"
  by (rule isWellFormed_plain) simp

lemma isWellFormed_one: "\<not> isHigh (unat u) \<Longrightarrow> \<not> isLow (unat u) \<Longrightarrow> isWellFormed [u]"
  by (simp add: isWellFormed_def)

lemma quoteUnits_step:
  "(\<exists>pre. quoteUnits (u # us) = pre @ quoteUnits us \<and> isWellFormed pre) \<or>
   (us = [] \<and> isWellFormed (quoteUnits (u # us))) \<or>
   (\<exists>v vs. us = v # vs \<and> isHigh (unat u) \<and> isLow (unat v) \<and>
            quoteUnits (u # us) = u # v # quoteUnits vs)"
proof (cases "singleCharacterEscape u")
  case (Some c)
  have "quoteUnits (u # us) = [92, c] @ quoteUnits us" using Some by simp
  moreover have "isWellFormed [92, c]"
    using singleCharacterEscape_small[OF Some] by (intro isWellFormed_two) simp_all
  ultimately show ?thesis by blast
next
  case None
  show ?thesis
  proof (cases "u < 32")
    case True
    have "quoteUnits (u # us) = unicodeEscape u @ quoteUnits us" using None True by simp
    then show ?thesis using isWellFormed_unicodeEscape by blast
  next
    case nc: False
    show ?thesis
    proof (cases "isHigh (unat u)")
      case True
      show ?thesis
      proof (cases us)
        case Nil
        have "quoteUnits (u # us) = unicodeEscape u" using None nc True Nil by simp
        then show ?thesis using isWellFormed_unicodeEscape Nil by simp
      next
        case (Cons v vs)
        show ?thesis
        proof (cases "isLow (unat v)")
          case lv: True
          have "quoteUnits (u # us) = u # v # quoteUnits vs" using None nc True Cons lv by simp
          then show ?thesis using True lv Cons by blast
        next
          case False
          have "quoteUnits (u # us) = unicodeEscape u @ quoteUnits us"
            using None nc True Cons False by simp
          then show ?thesis using isWellFormed_unicodeEscape by blast
        qed
      qed
    next
      case nh: False
      show ?thesis
      proof (cases "isLow (unat u)")
        case True
        have "quoteUnits (u # us) = unicodeEscape u @ quoteUnits us" using None nc nh True by simp
        then show ?thesis using isWellFormed_unicodeEscape by blast
      next
        case False
        have "quoteUnits (u # us) = [u] @ quoteUnits us" using None nc nh False by simp
        then show ?thesis using isWellFormed_one[OF nh False] by blast
      qed
    qed
  qed
qed

lemma isWellFormed_quoteUnits: "isWellFormed (quoteUnits s)"
proof (induction "length s" arbitrary: s rule: less_induct)
  case less
  show ?case
  proof (cases s)
    case Nil then show ?thesis by (simp add: isWellFormed_Nil)
  next
    case (Cons u us)
    from quoteUnits_step[of u us] show ?thesis
    proof (elim disjE exE conjE)
      fix pre assume "quoteUnits (u # us) = pre @ quoteUnits us" "isWellFormed pre"
      moreover have "isWellFormed (quoteUnits us)" using less Cons by simp
      ultimately show ?thesis using Cons by (simp add: isWellFormed_append)
    next
      assume "isWellFormed (quoteUnits (u # us))"
      then show ?thesis using Cons by simp
    next
      fix v vs assume a: "us = v # vs" "isHigh (unat u)" "isLow (unat v)"
        "quoteUnits (u # us) = u # v # quoteUnits vs"
      have "isWellFormed (quoteUnits vs)" using less Cons a(1) by simp
      then show ?thesis using a Cons by (simp add: isWellFormed_def del: quoteUnits.simps)
    qed
  qed
qed

lemma isWellFormed_decimal: "isWellFormed (decimal n)"
proof (induction n rule: decimal.induct)
  case (1 n)
  show ?case
  proof (cases "n < 10")
    case True
    have "unat (of_nat (48 + n) :: 16 word) = 48 + n" using True by (intro unat_of_nat16) simp
    then have "isWellFormed [of_nat (48 + n)]" using True by (intro isWellFormed_plain) simp
    then show ?thesis using True by (subst decimal.simps) simp
  next
    case False
    have "48 + n mod 10 < 65536" by (rule less_trans[of _ 58]) simp_all
    then have "unat (of_nat (48 + n mod 10) :: 16 word) = 48 + n mod 10" by (rule unat_of_nat16)
    moreover have "48 + n mod 10 < 0xD800" by (rule less_trans[of _ 58]) simp_all
    ultimately have "isWellFormed [of_nat (48 + n mod 10)]" by (intro isWellFormed_plain) simp
    moreover have "isWellFormed (decimal (n div 10))" using 1 False by simp
    ultimately show ?thesis using False
      by (subst decimal.simps) (simp add: isWellFormed_append)
  qed
qed

lemma isWellFormed_numberToString: "isWellFormed (numberToString n)"
  by (cases n)
     (auto simp: numberToString_def intro!: isWellFormed_append isWellFormed_str isWellFormed_decimal)

lemma isWellFormed_quoteJSONString: "isWellFormed (quoteJSONString s)"
  unfolding quoteJSONString_def
  by (intro isWellFormed_append isWellFormed_quoteUnits isWellFormed_plain) simp_all

lemma isWellFormed_joinComma:
  "\<forall>x\<in>set xs. isWellFormed x \<Longrightarrow> isWellFormed (joinComma xs)"
proof (induction xs rule: joinComma.induct)
  case 1 show ?case by (simp add: isWellFormed_Nil)
next
  case (2 x) then show ?case by simp
next
  case (3 x y ys)
  have "isWellFormed (44 # joinComma (y # ys))"
    using 3 by (intro isWellFormed_Cons_plain) simp_all
  then show ?case using 3 by (simp add: isWellFormed_append)
qed

lemma isWellFormed_bracket:
  "unat a < 0xD800 \<Longrightarrow> unat b < 0xD800 \<Longrightarrow> isWellFormed s \<Longrightarrow> isWellFormed ([a] @ s @ [b])"
proof -
  assume a: "unat a < 0xD800" and b: "unat b < 0xD800" and s: "isWellFormed s"
  have "isWellFormed [b]" using b by (intro isWellFormed_plain) simp
  then have "isWellFormed (s @ [b])" using s by (rule isWellFormed_append[rotated])
  then have "isWellFormed (a # s @ [b])" using a by (intro isWellFormed_Cons_plain)
  then show ?thesis by simp
qed

lemma isWellFormed_serialize:
  "(\<forall>t. serializeJSONProperty v = Some t \<longrightarrow> isWellFormed t)"
  "(\<forall>x\<in>set (partialOfObject kvs). isWellFormed x)"
  "(\<forall>x\<in>set (partialOfArray xs). isWellFormed x)"
proof (induction v and kvs and xs rule: serializeJSONProperty_partialOfObject_partialOfArray.induct)
  case 1 show ?case by simp
next
  case 2 show ?case by (simp add: isWellFormed_str)
next
  case (3 b) show ?case by (simp add: isWellFormed_str)
next
  case (4 n) show ?case by (cases n) (simp_all add: isWellFormed_str isWellFormed_numberToString)
next
  case (5 s) show ?case by (simp add: isWellFormed_quoteJSONString)
next
  case (6 xs)
  have "isWellFormed ([91] @ joinComma (partialOfArray xs) @ [93])"
    using 6 by (intro isWellFormed_bracket isWellFormed_joinComma) simp_all
  then show ?case by simp
next
  case (7 kvs)
  have "isWellFormed ([123] @ joinComma (partialOfObject kvs) @ [125])"
    using 7 by (intro isWellFormed_bracket isWellFormed_joinComma) simp_all
  then show ?case by simp
next
  case 8 show ?case by simp
next
  case (9 k v kvs)
  show ?case using 9
    by (auto split: option.splits intro!: isWellFormed_append isWellFormed_quoteJSONString isWellFormed_Cons_plain)
next
  case 10 show ?case by simp
next
  case (11 x xs)
  then show ?case by (auto split: option.splits simp: isWellFormed_str)
qed

lemma isWellFormed_JSON_stringify: "isWellFormed (JSON_stringify kvs)"
  unfolding JSON_stringify_def
  using isWellFormed_serialize(2)[of kvs]
  by (intro isWellFormed_bracket isWellFormed_joinComma) simp_all

section \<open>An altered payload\<close>

lemma signatureData_split:
  "signatureData challenge answer =
     ([123] @ quoteJSONString (str ''id'') @ [58] @ quoteJSONString (ident challenge) @ [44] @
      quoteJSONString (str ''type'') @ [58] @ quoteJSONString (kind challenge) @ [44]) @
     payloadMember (payload challenge) @
     (quoteJSONString (str ''expiresAt'') @ [58] @ numberToString (Integer (expiresAt challenge)) @ [44] @
      quoteJSONString (str ''expectedAnswer'') @ [58] @ quoteJSONString answer @ [125])"
  by (cases "serializeJSONProperty (payload challenge)")
     (simp_all add: signatureData_def JSON_stringify_def payloadMember_def)

lemma payloadMember_inj:
  "payloadMember p = payloadMember q \<Longrightarrow> serializeJSONProperty p = serializeJSONProperty q"
  by (cases "serializeJSONProperty p"; cases "serializeJSONProperty q")
     (simp_all add: payloadMember_def quoteJSONString_def)

lemma signatureData_payload:
  assumes "signatureData (challenge\<lparr>payload := p\<rparr>) answer = signatureData challenge answer"
  shows "serializeJSONProperty p = serializeJSONProperty (payload challenge)"
proof -
  have "payloadMember p = payloadMember (payload challenge)"
    using assms unfolding signatureData_split by simp
  then show ?thesis by (rule payloadMember_inj)
qed

lemma isWellFormed_signatureData: "isWellFormed (signatureData challenge answer)"
  unfolding signatureData_def by (rule isWellFormed_JSON_stringify)

lemma safeCompare_signChallenge:
  assumes "safeCompare (signChallenge H d s) (signChallenge H d' s)"
      and "isWellFormed d" and "isWellFormed d'"
      and "H (Buffer_from s) (Buffer_from d) = H (Buffer_from s) (Buffer_from d') \<Longrightarrow>
           Buffer_from d = Buffer_from d'"
  shows "d = d'"
proof -
  have "signChallenge H d s = signChallenge H d' s"
    using assms(1) safeCompare_wellFormed[of "signChallenge H d s" "signChallenge H d' s"]
    by (simp add: signChallenge_def isWellFormed_toString_hex)
  then have "H (Buffer_from s) (Buffer_from d) = H (Buffer_from s) (Buffer_from d')"
    unfolding signChallenge_def by (rule toString_hex_inj)
  then have "Buffer_from d = Buffer_from d'" by (rule assms(4))
  then show ?thesis using assms(2,3) by (intro Buffer_from_inj)
qed

lemma generate_signatureData:
  assumes "generate H gFE gCO cfg overrides now0 tape = Inr ((challenge, answer), tape')"
  shows "signature challenge = signChallenge H (signatureData challenge answer) (secret cfg)"
  using generate_signature(1)[OF assms] by (simp add: signatureData_def)

lemma verify_signature_mismatch:
  assumes "challengeStore v (ident challenge) = Some stored"
      and "allowed (fst (recordAttempt (now 0) (clientKeyOf clientIdentifier) (rateLimiter v)))"
      and "ident challenge = challengeId sol"
      and "now 1 \<le> expiresAt challenge" and "now 2 \<le> storedExpiresAt stored"
      and "\<not> safeCompare (signature challenge)
               (signChallenge H (signatureData challenge (expectedAnswer stored)) (secret (config v)))"
  shows "fst (verify H now challenge sol clientIdentifier v) =
           \<lparr>valid = False, error = Some (str ''Invalid challenge signature''),
            errorCode = Some INVALID_SIGNATURE\<rparr>"
proof -
  obtain r rl where ra: "recordAttempt (now 0) (clientKeyOf clientIdentifier) (rateLimiter v) = (r, rl)"
    by (cases "recordAttempt (now 0) (clientKeyOf clientIdentifier) (rateLimiter v)")
  have al: "allowed r" using assms(2) ra by simp
  show ?thesis
    using al assms(1,3,4,5,6)
    by (simp add: verify_def Let_def ra failure_def signatureData_def)
qed

lemma example_generate_function:
  "generate exampleH exampleFunctionExecution noBuilder (defaultConfig (str ''s3cret''))
     exampleFunctionOverrides 1000 exampleIdBytes = Inr ((exampleFunctionGenerated, str ''a''), [])"
proof -
  have id: "generateId 32 exampleIdBytes = Inr (toString_hex exampleIdBytes, [])"
    by (simp add: generateId_def randomBytes_def andThen_def exampleIdBytes_def)
  show ?thesis
    by (simp add: generate_def exampleFunctionOverrides_def generatePayload_def
          exampleFunctionExecution_def andThen_def Let_def id defaultConfig_def
          exampleFunctionGenerated_def)
qed

lemma example_negative_zero_text:
  "serializeJSONProperty (exampleFunctionPayload NegativeZero) =
   serializeJSONProperty (exampleFunctionPayload (Integer 0))"
proof -
  have "decimal 0 = str ''0''" by (subst decimal.simps) (simp add: str_def)
  then show ?thesis by (simp add: exampleFunctionPayload_def numberToString_def)
qed

lemma example_altered_text:
  "serializeJSONProperty exampleAlteredPayload \<noteq> serializeJSONProperty (payload exampleGenerated)"
  by (simp add: exampleAlteredPayload_def exampleGenerated_def examplePayload_def
        quoteJSONString_def singleCharacterEscape_def str_def isHigh_def isLow_def)

text \<open>
  Claim C3, as stated, does not hold: the signature is over the JSON text of the payload,
  and two payloads can have the same text. A challenge is generated and stored; its
  payload has the parameter \<open>0\<close>; the parameter is altered to \<open>-0\<close>, which \<open>JSON.stringify\<close>
  writes \<open>0\<close> as well; \<open>verify\<close> of the altered challenge and the stored answer returns
  \<open>{valid: true}\<close>, with a keyed function that has no collision at all.
\<close>

theorem altered_payload_negative_zero_valid:
  "generate exampleH exampleFunctionExecution noBuilder (defaultConfig (str ''s3cret''))
     exampleFunctionOverrides 1000 exampleIdBytes = Inr ((exampleFunctionGenerated, str ''a''), []) \<and>
   exampleFunctionPayload NegativeZero \<noteq> payload exampleFunctionGenerated \<and>
   fst (verify exampleH (\<lambda>i. 2000)
          (exampleFunctionGenerated\<lparr>payload := exampleFunctionPayload NegativeZero\<rparr>)
          \<lparr>challengeId = ident exampleFunctionGenerated, solution = str ''a''\<rparr> None
          (storeChallenge (ident exampleFunctionGenerated) (str ''a'')
             (expiresAt exampleFunctionGenerated) exampleVerifier)) =
     \<lparr>valid = True, error = None, errorCode = None\<rparr>"
proof -
  have ne: "exampleFunctionPayload NegativeZero \<noteq> payload exampleFunctionGenerated"
    by (simp add: exampleFunctionGenerated_def exampleFunctionPayload_def)
  obtain r rl where ra: "recordAttempt 2000 (clientKeyOf None) (rateLimiter exampleVerifier) = (r, rl)"
    by (cases "recordAttempt 2000 (clientKeyOf None) (rateLimiter exampleVerifier)")
  have al: "allowed r" using example_first_attempt[of 2000] ra by (auto simp: clientKeyOf_def)
  have sd: "signatureData (exampleFunctionGenerated\<lparr>payload := exampleFunctionPayload NegativeZero\<rparr>) (str ''a'') =
            signatureData exampleFunctionGenerated (str ''a'')"
    unfolding signatureData_split by (simp add: payloadMember_def example_negative_zero_text exampleFunctionGenerated_def)
  have sg: "signature exampleFunctionGenerated =
            signChallenge exampleH (signatureData exampleFunctionGenerated (str ''a'')) (str ''s3cret'')"
    by (simp add: exampleFunctionGenerated_def signatureData_def)
  have se: "secret (config exampleVerifier) = str ''s3cret''"
    by (simp add: exampleVerifier_def createVerifier_def defaultConfig_def)
  have ex: "expiresAt exampleFunctionGenerated = 31000" by (simp add: exampleFunctionGenerated_def)
  have "fst (verify exampleH (\<lambda>i. 2000)
          (exampleFunctionGenerated\<lparr>payload := exampleFunctionPayload NegativeZero\<rparr>)
          \<lparr>challengeId = ident exampleFunctionGenerated, solution = str ''a''\<rparr> None
          (storeChallenge (ident exampleFunctionGenerated) (str ''a'')
             (expiresAt exampleFunctionGenerated) exampleVerifier)) =
     \<lparr>valid = True, error = None, errorCode = None\<rparr>"
    using al sd[unfolded signatureData_def] sg[unfolded signatureData_def]
    by (simp add: verify_def storeChallenge_def Let_def ra se ex safeCompare_same)
  then show ?thesis using example_generate_function ne by simp
qed

text \<open>
  Claim C3, amended. A challenge is generated and stored, and its payload is replaced by a
  payload whose JSON text is another one (\<open>JSON.stringify\<close> of the two differ), the stored
  answer being unchanged. Then \<open>verify\<close>, for a verifier that has the secret of the
  generator, a client that is not rate limited, a clock that has not passed \<open>expiresAt\<close>
  and any solution, returns \<open>valid = false\<close> with the code \<open>INVALID_SIGNATURE\<close>, provided that
  the keyed hash does not collide on the UTF-8 bytes of the two signed texts.
\<close>

theorem altered_payload_INVALID_SIGNATURE:
  assumes "generate H gFE gCO cfg overrides now0 tape = Inr ((challenge, answer), tape')"
      and "secret (config v) = secret cfg"
      and "serializeJSONProperty p \<noteq> serializeJSONProperty (payload challenge)"
      and "H (Buffer_from (secret cfg)) (Buffer_from (signatureData challenge answer)) =
           H (Buffer_from (secret cfg)) (Buffer_from (signatureData (challenge\<lparr>payload := p\<rparr>) answer))
           \<longrightarrow> Buffer_from (signatureData challenge answer) =
               Buffer_from (signatureData (challenge\<lparr>payload := p\<rparr>) answer)"
      and "allowed (fst (recordAttempt (now 0) (clientKeyOf clientIdentifier) (rateLimiter v)))"
      and "now 1 \<le> expiresAt challenge" and "now 2 \<le> expiresAt challenge"
  shows "fst (verify H now (challenge\<lparr>payload := p\<rparr>)
                \<lparr>challengeId = ident challenge, solution = s\<rparr> clientIdentifier
                (storeChallenge (ident challenge) answer (expiresAt challenge) v)) =
           \<lparr>valid = False, error = Some (str ''Invalid challenge signature''),
            errorCode = Some INVALID_SIGNATURE\<rparr>"
proof -
  let ?v = "storeChallenge (ident challenge) answer (expiresAt challenge) v"
  let ?c = "challenge\<lparr>payload := p\<rparr>"
  let ?stored = "\<lparr>expectedAnswer = answer, storedExpiresAt = expiresAt challenge\<rparr>"
  have sg: "signature challenge = signChallenge H (signatureData challenge answer) (secret cfg)"
    using assms(1) by (rule generate_signatureData)
  have ne: "signatureData challenge answer \<noteq> signatureData ?c answer"
    using signatureData_payload[where challenge=challenge and p=p and answer=answer] assms(3) by auto
  have ns: "\<not> safeCompare (signChallenge H (signatureData challenge answer) (secret cfg))
                 (signChallenge H (signatureData ?c answer) (secret cfg))"
  proof
    assume "safeCompare (signChallenge H (signatureData challenge answer) (secret cfg))
                 (signChallenge H (signatureData ?c answer) (secret cfg))"
    then have "signatureData challenge answer = signatureData ?c answer"
      using assms(4)
      by (intro safeCompare_signChallenge[of H _ "secret cfg"] isWellFormed_signatureData) simp_all
    then show False using ne by simp
  qed
  have st: "challengeStore ?v (ident ?c) = Some ?stored"
    by (simp add: storeChallenge_def)
  have "fst (verify H now ?c \<lparr>challengeId = ident challenge, solution = s\<rparr> clientIdentifier ?v) =
           \<lparr>valid = False, error = Some (str ''Invalid challenge signature''),
            errorCode = Some INVALID_SIGNATURE\<rparr>"
    using assms(2,5,6,7) ns sg
    by (intro verify_signature_mismatch[OF st]) (simp_all add: storeChallenge_def)
  then show ?thesis .
qed

theorem altered_payload_INVALID_SIGNATURE_witness:
  "generate exampleH noBuilder noBuilder (defaultConfig (str ''s3cret'')) exampleOverrides 1000
     exampleTape = Inr ((exampleGenerated, str ''7''), []) \<and>
   secret (config exampleVerifier) = secret (defaultConfig (str ''s3cret'')) \<and>
   serializeJSONProperty exampleAlteredPayload \<noteq> serializeJSONProperty (payload exampleGenerated) \<and>
   allowed (fst (recordAttempt 2000 (clientKeyOf None) (rateLimiter exampleVerifier))) \<and>
   2000 \<le> expiresAt exampleGenerated \<and>
   fst (verify exampleH (\<lambda>i. 2000) (exampleGenerated\<lparr>payload := exampleAlteredPayload\<rparr>)
          \<lparr>challengeId = ident exampleGenerated, solution = str ''7''\<rparr> None
          (storeChallenge (ident exampleGenerated) (str ''7'') (expiresAt exampleGenerated)
             exampleVerifier)) =
     \<lparr>valid = False, error = Some (str ''Invalid challenge signature''),
      errorCode = Some INVALID_SIGNATURE\<rparr>"
proof -
  have h2: "secret (config exampleVerifier) = secret (defaultConfig (str ''s3cret''))"
    by (simp add: exampleVerifier_def createVerifier_def)
  have h4: "exampleH (Buffer_from (secret (defaultConfig (str ''s3cret''))))
              (Buffer_from (signatureData exampleGenerated (str ''7''))) =
            exampleH (Buffer_from (secret (defaultConfig (str ''s3cret''))))
              (Buffer_from (signatureData (exampleGenerated\<lparr>payload := exampleAlteredPayload\<rparr>) (str ''7'')))
            \<longrightarrow> Buffer_from (signatureData exampleGenerated (str ''7'')) =
                Buffer_from (signatureData (exampleGenerated\<lparr>payload := exampleAlteredPayload\<rparr>) (str ''7''))"
    unfolding exampleH_def by (rule impI)
  have h5: "allowed (fst (recordAttempt ((\<lambda>i. 2000) 0) (clientKeyOf None) (rateLimiter exampleVerifier)))"
    by (simp add: clientKeyOf_def example_first_attempt)
  have h6: "(\<lambda>i::nat. 2000::int) 1 \<le> expiresAt exampleGenerated"
       "(\<lambda>i::nat. 2000::int) 2 \<le> expiresAt exampleGenerated"
    by (simp_all add: exampleGenerated_def)
  have c: "fst (verify exampleH (\<lambda>i. 2000) (exampleGenerated\<lparr>payload := exampleAlteredPayload\<rparr>)
          \<lparr>challengeId = ident exampleGenerated, solution = str ''7''\<rparr> None
          (storeChallenge (ident exampleGenerated) (str ''7'') (expiresAt exampleGenerated)
             exampleVerifier)) =
     \<lparr>valid = False, error = Some (str ''Invalid challenge signature''),
      errorCode = Some INVALID_SIGNATURE\<rparr>"
    using altered_payload_INVALID_SIGNATURE [OF example_generate h2 example_altered_text h4 h5 h6]
    by simp
  show ?thesis using example_generate h2 example_altered_text h5 h6 c by simp
qed

end
